theory Spec2Isabelle
  imports Complex_Main "HOL-Library.Multiset" "HOL-Library.Word"
begin

section \<open>Outcomes of the Python code\<close>

text \<open>
  The module \<^verbatim>\<open>STMiner/Algorithm/distance.py\<close> computes with numpy arrays of
  \<^verbatim>\<open>float64\<close>.  The numbers are modelled as real numbers: rounding, overflow and
  underflow of the machine format are outside this model.  The one non-real value that the
  arithmetic of the module can produce from real inputs, \<^verbatim>\<open>nan\<close> (root or fractional
  power of a negative number), is kept: a \<open>float\<close> is \<open>Some x\<close> for the number \<open>x\<close> and
  \<open>None\<close> for \<^verbatim>\<open>nan\<close>.

  An exception is a value \<open>Inl e\<close>.  \<open>ShapeMismatchError\<close>, \<open>EmptySelectionError\<close> and
  \<open>InvalidInputError\<close> are the names the specification uses; the module itself raises
  none of its own, every exception of it comes from Python, numpy, scipy or pandas.
\<close>

datatype error =
    IndexError | KeyError | ValueError | LinAlgError | ZeroDivisionError
  | InvalidInputError | ShapeMismatchError | EmptySelectionError

type_synonym float = "real option"
type_synonym vec = "real list"
type_synonym mat = "real list list"

definition bind_res :: "error + 'a \<Rightarrow> ('a \<Rightarrow> error + 'b) \<Rightarrow> error + 'b" where
  "bind_res r f = (case r of Inl e \<Rightarrow> Inl e | Inr x \<Rightarrow> f x)"

text \<open>A \<^verbatim>\<open>for\<close> loop that computes one value per element and stops at the first exception.\<close>

fun for_each :: "('a \<Rightarrow> error + 'b) \<Rightarrow> 'a list \<Rightarrow> error + 'b list" where
  "for_each f [] = Inr []"
| "for_each f (x # xs) =
     (case f x of Inl e \<Rightarrow> Inl e
      | Inr y \<Rightarrow> (case for_each f xs of Inl e \<Rightarrow> Inl e | Inr ys \<Rightarrow> Inr (y # ys)))"

text \<open>\<^verbatim>\<open>a[i]\<close> for \<open>i\<close> from a \<^verbatim>\<open>range\<close>: out of range raises \<^verbatim>\<open>IndexError\<close>.\<close>

definition getitem :: "'a list \<Rightarrow> nat \<Rightarrow> error + 'a" where
  "getitem xs i = (if i < length xs then Inr (xs ! i) else Inl IndexError)"

section \<open>Linear algebra of numpy, over the reals\<close>

definition dot :: "vec \<Rightarrow> vec \<Rightarrow> real" where
  "dot x y = sum_list (map2 (*) x y)"

definition vsub :: "vec \<Rightarrow> vec \<Rightarrow> vec" where
  "vsub x y = map2 (-) x y"

definition vadd :: "vec \<Rightarrow> vec \<Rightarrow> vec" where
  "vadd x y = map2 (+) x y"

definition smul :: "real \<Rightarrow> vec \<Rightarrow> vec" where
  "smul c x = map ((*) c) x"

text \<open>\<^verbatim>\<open>M @ x\<close>: matrix times vector.\<close>

definition mv :: "mat \<Rightarrow> vec \<Rightarrow> vec" where
  "mv M x = map (\<lambda>r. dot r x) M"

text \<open>\<^verbatim>\<open>x @ M\<close> (also \<^verbatim>\<open>x.T @ M\<close>, the transpose of a one-dimensional array is itself):
  the linear combination of the rows of \<open>M\<close>, of width \<open>n\<close>.\<close>

fun vm :: "nat \<Rightarrow> vec \<Rightarrow> mat \<Rightarrow> vec" where
  "vm n (x # xs) (r # rs) = vadd (smul x r) (vm n xs rs)"
| "vm n _ _ = replicate n 0"

definition mat_add :: "mat \<Rightarrow> mat \<Rightarrow> mat" where
  "mat_add A B = map2 vadd A B"

definition mat_div :: "mat \<Rightarrow> real \<Rightarrow> mat" where
  "mat_div A c = map (map (\<lambda>x. x / c)) A"

definition is_square :: "nat \<Rightarrow> mat \<Rightarrow> bool" where
  "is_square n A \<longleftrightarrow> length A = n \<and> list_all (\<lambda>r. length r = n) A"

subsection \<open>Determinant and inverse by elimination\<close>

text \<open>
  \<^verbatim>\<open>np.linalg.det\<close> and \<^verbatim>\<open>np.linalg.inv\<close> factor the matrix by Gaussian elimination
  with row exchanges.  \<open>pivot_row\<close> looks for the first row whose leading entry is not
  zero and returns its position, the entry, the rest of that row and the other rows in
  their order (LAPACK takes the entry of largest magnitude; over the reals the
  determinant and the inverse do not depend on that choice).
\<close>

fun pivot_row :: "mat \<Rightarrow> (nat \<times> real \<times> vec \<times> mat) option" where
  "pivot_row [] = None"
| "pivot_row ([] # rs) = None"
| "pivot_row ((a # r) # rs) =
     (if a \<noteq> 0 then Some (0, a, r, rs)
      else (case pivot_row rs of None \<Rightarrow> None
            | Some (k, p, pr, others) \<Rightarrow> Some (Suc k, p, pr, (a # r) # others)))"

text \<open>One elimination step: subtract from every other row \<open>c # t\<close> the multiple \<open>c / a\<close>
  of the pivot row \<open>a # r\<close> and drop the first column, which is zero afterwards.\<close>

definition eliminate :: "real \<Rightarrow> vec \<Rightarrow> mat \<Rightarrow> mat" where
  "eliminate a r rs = map (\<lambda>row. vsub (tl row) (smul (hd row / a) r)) rs"

fun det_rec :: "nat \<Rightarrow> mat \<Rightarrow> real" where
  "det_rec 0 M = 1"
| "det_rec (Suc n) M =
     (case pivot_row M of None \<Rightarrow> 0
      | Some (k, a, r, rs) \<Rightarrow> (- 1) ^ k * a * det_rec n (eliminate a r rs))"

definition linalg_det :: "mat \<Rightarrow> real" where
  "linalg_det M = det_rec (length M) M"

text \<open>
  The inverse of the matrix with pivot row first, \<open>(a # r) # rs\<close>, from the inverse \<open>Si\<close>
  of the eliminated matrix; moving the first column of the result to position \<open>k\<close>
  undoes the row exchange.
\<close>

definition unpivot :: "nat \<Rightarrow> vec \<Rightarrow> vec" where
  "unpivot k row = take k (tl row) @ [hd row] @ drop k (tl row)"

fun inv_rec :: "nat \<Rightarrow> mat \<Rightarrow> mat option" where
  "inv_rec 0 M = Some []"
| "inv_rec (Suc n) M =
     (case pivot_row M of None \<Rightarrow> None
      | Some (k, a, r, rs) \<Rightarrow>
          (case inv_rec n (eliminate a r rs) of None \<Rightarrow> None
           | Some Si \<Rightarrow>
               let c = map hd rs; u = mv Si c; v = vm n r Si
               in Some (map (unpivot k)
                    (((1 / a + dot r u / (a * a)) # smul (- 1 / a) v)
                     # map2 (\<lambda>ui row. (- ui / a) # row) u Si))))"

text \<open>\<^verbatim>\<open>np.linalg.inv\<close> raises \<^verbatim>\<open>LinAlgError\<close> on a singular matrix.\<close>

definition linalg_inv :: "mat \<Rightarrow> error + mat" where
  "linalg_inv M = (case inv_rec (length M) M of None \<Rightarrow> Inl LinAlgError | Some Mi \<Rightarrow> Inr Mi)"

section \<open>The Hellinger distance of two Gaussian components\<close>

text \<open>\<^verbatim>\<open>np.power(x, 0.25)\<close> and \<^verbatim>\<open>np.sqrt(x)\<close>: \<^verbatim>\<open>nan\<close> on a negative number, and the
  exact power and root otherwise (the \<^verbatim>\<open>float64\<close> results differ from them by rounding).\<close>

definition np_power :: "real \<Rightarrow> real \<Rightarrow> float" where
  "np_power x y = (if x < 0 then None else Some (x powr y))"

definition np_sqrt :: "real \<Rightarrow> float" where
  "np_sqrt x = (if x < 0 then None else Some (sqrt x))"

definition fmul :: "float \<Rightarrow> float \<Rightarrow> float" where
  "fmul a b = (case a of None \<Rightarrow> None | Some x \<Rightarrow> map_option ((*) x) b)"

text \<open>Division of two scalars inside \<^verbatim>\<open>@njit\<close> code: numba's default error model
  raises \<^verbatim>\<open>ZeroDivisionError\<close> on a zero divisor.\<close>

definition fdiv :: "float \<Rightarrow> float \<Rightarrow> error + float" where
  "fdiv a b =
     (case b of None \<Rightarrow> Inr None
      | Some y \<Rightarrow> if y = 0 then Inl ZeroDivisionError else Inr (map_option (\<lambda>x. x / y) a))"

text \<open>
  \<^verbatim>\<open>get_hellinger_distance\<close>, lines 72 to 81.  The arguments are a \<open>D \<times> D\<close> matrix and a
  vector of length \<open>D\<close> for each component; arrays of other shapes make numpy raise (its
  broadcasting of arrays of size one is not modelled), which is the first branch.
\<close>

definition get_hellinger_distance :: "mat \<Rightarrow> vec \<Rightarrow> mat \<Rightarrow> vec \<Rightarrow> error + float" where
  "get_hellinger_distance gmm1_covs gmm1_means gmm2_covs gmm2_means =
     (let n = length gmm1_means in
      if \<not> (is_square n gmm1_covs \<and> is_square n gmm2_covs \<and> length gmm2_means = n)
      then Inl ValueError
      else
        let mean_cov = mat_div (mat_add gmm1_covs gmm2_covs) 2;
            mean_cov_det = linalg_det mean_cov
        in bind_res (linalg_inv mean_cov) (\<lambda>mean_cov_inv.
           let gmm1_cov_det = linalg_det gmm1_covs;
               gmm2_cov_det = linalg_det gmm2_covs;
               means_diff = vsub gmm1_means gmm2_means;
               first_term = exp (- (dot (vm n means_diff mean_cov_inv) means_diff) / 8)
           in bind_res
                (fdiv (fmul (np_power gmm1_cov_det (1 / 4)) (np_power gmm2_cov_det (1 / 4)))
                      (np_sqrt mean_cov_det))
                (\<lambda>second_term.
                   Inr (map_option (\<lambda>s. sqrt \<bar>1 - first_term * s\<bar>) second_term))))"

section \<open>The assignment problem\<close>

text \<open>
  \<^verbatim>\<open>scipy.optimize.linear_sum_assignment\<close> on a matrix of \<open>m\<close> rows and \<open>n\<close> columns
  matches \<open>min m n\<close> rows and columns one to one at the least total cost and returns the
  row indices, ascending, and their column indices.  The model enumerates the one-to-one
  assignments and takes the first of least cost; which of several optimal assignments
  scipy returns is not modelled, the module only sums the matched costs.
\<close>

definition injections :: "nat \<Rightarrow> nat \<Rightarrow> nat list list" where
  "injections m n = filter distinct (List.n_lists m [0..<n])"

definition matched_cost :: "mat \<Rightarrow> nat list \<Rightarrow> nat list \<Rightarrow> real" where
  "matched_cost d rows cols = sum_list (map2 (\<lambda>i j. d ! i ! j) rows cols)"

definition ncols :: "'a list list \<Rightarrow> nat" where
  "ncols d = (case d of [] \<Rightarrow> 0 | r # _ \<Rightarrow> length r)"

definition linear_sum_assignment :: "mat \<Rightarrow> nat list \<times> nat list" where
  "linear_sum_assignment d =
     (let m = length d; n = ncols d in
      if m \<le> n
      then ([0..<m], arg_min_list (\<lambda>cols. matched_cost d [0..<m] cols) (injections m n))
      else let rows = arg_min_list (\<lambda>rows. matched_cost d rows [0..<n]) (injections n m);
               pairs = sort_key fst (zip rows [0..<n])
           in (map fst pairs, map snd pairs))"

text \<open>The numbers of a matrix without \<^verbatim>\<open>nan\<close>.\<close>

definition finite_matrix :: "float list list \<Rightarrow> mat option" where
  "finite_matrix cost = those (map those cost)"

text \<open>
  Modelled from the spec: \<^verbatim>\<open>linear_sum\<close> of \<^verbatim>\<open>STMiner/Algorithm/algorithm.py\<close>, which is
  not among the sources.  The specification's ExactAssignmentSolver is a thin wrapper
  over the library routine that returns the total matched cost and fails with
  \<open>InvalidInputError\<close> if an entry is NaN or the matrix has no rows or no columns.
\<close>

definition linear_sum :: "float list list \<Rightarrow> error + real" where
  "linear_sum cost =
     (if cost = [] \<or> ncols cost = 0 then Inl InvalidInputError
      else (case finite_matrix cost of None \<Rightarrow> Inl InvalidInputError
            | Some d \<Rightarrow> (case linear_sum_assignment d of (rows, cols) \<Rightarrow>
                          Inr (matched_cost d rows cols))))"

section \<open>The distance of two mixture models\<close>

text \<open>A fitted mixture model: the attributes \<^verbatim>\<open>weights_\<close>, \<^verbatim>\<open>means_\<close> and
  \<^verbatim>\<open>covariances_\<close> that the module reads.\<close>

record gmm =
  weights :: "real list"
  means :: "vec list"
  covariances :: "mat list"

text \<open>The body of the inner loop, lines 34 and 35: the entry \<open>(i, j)\<close> of the cost matrix.\<close>

definition distance_entry :: "gmm \<Rightarrow> gmm \<Rightarrow> nat \<Rightarrow> nat \<Rightarrow> error + float" where
  "distance_entry first_gmm second_gmm i j =
     bind_res (getitem (covariances first_gmm) i) (\<lambda>c1.
     bind_res (getitem (means first_gmm) i) (\<lambda>m1.
     bind_res (getitem (covariances second_gmm) j) (\<lambda>c2.
     bind_res (getitem (means second_gmm) j) (\<lambda>m2.
     bind_res (get_hellinger_distance c1 m1 c2 m2) (\<lambda>hd.
     bind_res (getitem (weights first_gmm) i) (\<lambda>w1.
     bind_res (getitem (weights second_gmm) j) (\<lambda>w2.
     Inr (fmul (Some (w1 + w2)) hd))))))))"

text \<open>Lines 30 to 35: the two nested loops over \<^verbatim>\<open>range(n_components)\<close>.\<close>

definition distance_array :: "gmm \<Rightarrow> gmm \<Rightarrow> error + float list list" where
  "distance_array first_gmm second_gmm =
     (let n_components = length (weights first_gmm) in
      for_each (\<lambda>i. for_each (\<lambda>j. distance_entry first_gmm second_gmm i j)
                  [0..<n_components]) [0..<n_components])"

definition distribution_distance :: "gmm \<Rightarrow> gmm \<Rightarrow> error + real" where
  "distribution_distance first_gmm second_gmm =
     bind_res (distance_array first_gmm second_gmm) linear_sum"

section \<open>Spatial arrays\<close>

text \<open>
  The dataset: the names of the genes (\<^verbatim>\<open>adata.var_names\<close>), the integer coordinates
  of the spots (\<^verbatim>\<open>adata.obs['x']\<close>, \<^verbatim>\<open>adata.obs['y']\<close>) and the expression matrix
  \<^verbatim>\<open>adata.X\<close>, one row per spot and one column per gene.
\<close>

record adata =
  var_names :: "string list"
  obs_x :: "int list"
  obs_y :: "int list"
  X_rows :: "real list list"

type_synonym int32 = "32 word"

text \<open>\<^verbatim>\<open>sparse.coo_matrix((data, (row, col))).todense()\<close>: the shape is inferred from the
  largest indices, entries at the same position are added up, the other cells are 0.\<close>

definition coo_todense :: "real list \<Rightarrow> int list \<Rightarrow> int list \<Rightarrow> error + mat" where
  "coo_todense data row col =
     (if length row \<noteq> length data \<or> length col \<noteq> length data then Inl ValueError
      else if data = [] then Inl ValueError
      else if list_ex (\<lambda>r. r < 0) row \<or> list_ex (\<lambda>c. c < 0) col then Inl ValueError
      else Inr (map (\<lambda>i. map (\<lambda>j.
                  sum_list (map fst (filter (\<lambda>(v, r, c). r = int i \<and> c = int j)
                                       (zip data (zip row col)))))
                  [0..<nat (Max (set col)) + 1]) [0..<nat (Max (set row)) + 1]))"

text \<open>\<^verbatim>\<open>np.mean\<close> of a selection: \<^verbatim>\<open>nan\<close> (and a warning, no exception) if it is empty.\<close>

definition np_mean :: "real list \<Rightarrow> float" where
  "np_mean xs = (if xs = [] then None else Some (sum_list xs / real (length xs)))"

text \<open>\<^verbatim>\<open>np.round\<close> rounds a half to the even neighbour.\<close>

definition np_round :: "real \<Rightarrow> int" where
  "np_round x =
     (let f = \<lfloor>x\<rfloor>; d = x - of_int f
      in if d < 1 / 2 then f else if 1 / 2 < d then f + 1 else if even f then f else f + 1)"

text \<open>
  \<^verbatim>\<open>np.array(..., dtype=np.int32)\<close> of rounded numbers.  The conversion of \<^verbatim>\<open>nan\<close> and of
  a number outside the range of \<^verbatim>\<open>int32\<close> raises nothing; its result is whatever the
  platform's conversion gives, the parameter \<open>cast_oob\<close>.
\<close>

definition astype_int32 :: "(float \<Rightarrow> int32) \<Rightarrow> float \<Rightarrow> int32" where
  "astype_int32 cast_oob v =
     (case v of None \<Rightarrow> cast_oob None
      | Some x \<Rightarrow>
          if - 2147483648 \<le> np_round x \<and> np_round x \<le> 2147483647
          then word_of_int (np_round x) else cast_oob (Some (of_int (np_round x))))"

text \<open>\<^verbatim>\<open>get_exp_array\<close>, lines 194 to 205.  \<^verbatim>\<open>data[:, 0]\<close> is the first column whose name
  is \<^verbatim>\<open>gene_name\<close>.\<close>

definition get_exp_array ::
    "(float \<Rightarrow> int32) \<Rightarrow> adata \<Rightarrow> string \<Rightarrow> bool \<Rightarrow> error + int32 list list" where
  "get_exp_array cast_oob adata gene_name remove_low_exp_spots =
     (case filter (\<lambda>k. var_names adata ! k = gene_name) [0..<length (var_names adata)] of
        [] \<Rightarrow> Inl IndexError
      | k # _ \<Rightarrow>
          bind_res (for_each (\<lambda>row. getitem row k) (X_rows adata)) (\<lambda>data.
          bind_res (coo_todense data (obs_x adata) (obs_y adata)) (\<lambda>dense_array.
            let dense_array' =
              (if remove_low_exp_spots
               then (case np_mean (filter (\<lambda>v. v \<noteq> 0) (concat dense_array)) of
                       None \<Rightarrow> map (map (\<lambda>v. None)) dense_array
                     | Some m \<Rightarrow> map (map (\<lambda>v. Some (max (v - m) 0))) dense_array)
               else map (map Some) dense_array)
            in Inr (map (map (astype_int32 cast_oob)) dense_array'))))"

section \<open>Pairwise metrics on spatial arrays\<close>

text \<open>\<^verbatim>\<open>mse\<close>, lines 148 to 150, compiled by numba: difference and square are taken in
  \<^verbatim>\<open>int32\<close>, where they wrap around; the mean is a \<^verbatim>\<open>float64\<close>.\<close>

definition mse :: "int32 list list \<Rightarrow> int32 list list \<Rightarrow> error + float" where
  "mse arr_i arr_j =
     (if map length arr_i \<noteq> map length arr_j then Inl ValueError
      else let squares = concat (map2 (map2 (\<lambda>a b. (a - b) * (a - b))) arr_i arr_j)
           in if squares = [] then Inl ZeroDivisionError
              else Inr (Some (sum_list (map (\<lambda>w. real_of_int (sint w)) squares)
                              / real (length squares))))"

text \<open>\<^verbatim>\<open>scipy.spatial.distance.cosine\<close> of two flattened arrays, with exact products
  (the integer width scipy multiplies in depends on its version): 1 minus the cosine of
  the angle, \<^verbatim>\<open>nan\<close> if one of the vectors is zero.\<close>

definition cosine :: "int32 list \<Rightarrow> int32 list \<Rightarrow> error + float" where
  "cosine u v =
     (if length u \<noteq> length v then Inl ValueError
      else let u' = map (\<lambda>w. real_of_int (sint w)) u; v' = map (\<lambda>w. real_of_int (sint w)) v;
               uv = dot u' v'; uu = dot u' u'; vv = dot v' v'
           in if uu * vv = 0 then Inr None else Inr (Some (1 - uv / sqrt (uu * vv))))"

text \<open>\<^verbatim>\<open>scipy.spatial.distance.cdist\<close>: the Euclidean distance of every row of \<open>XA\<close> to
  every row of \<open>XB\<close>, computed in \<^verbatim>\<open>float64\<close>.\<close>

definition euclidean :: "int32 list \<Rightarrow> int32 list \<Rightarrow> real" where
  "euclidean a b = sqrt (sum_list (map2 (\<lambda>x y. (real_of_int (sint x) - real_of_int (sint y))\<^sup>2) a b))"

definition cdist :: "int32 list list \<Rightarrow> int32 list list \<Rightarrow> error + mat" where
  "cdist XA XB =
     (if ncols XA \<noteq> ncols XB then Inl ValueError
      else Inr (map (\<lambda>a. map (\<lambda>b. euclidean a b) XB) XA))"

section \<open>Labelled matrices\<close>

text \<open>A \<^verbatim>\<open>pandas.DataFrame\<close> of \<^verbatim>\<open>float64\<close>: row labels, column labels and the values.\<close>

record dataframe =
  df_index :: "string list"
  df_columns :: "string list"
  df_values :: "float list list"

text \<open>\<^verbatim>\<open>pd.DataFrame(0, index=gene_list, columns=gene_list, dtype=np.float64)\<close>\<close>

definition new_frame :: "string list \<Rightarrow> dataframe" where
  "new_frame gene_list =
     \<lparr>df_index = gene_list, df_columns = gene_list,
      df_values = replicate (length gene_list) (replicate (length gene_list) (Some 0))\<rparr>"

text \<open>\<^verbatim>\<open>df.loc[r, c] = v\<close> for labels that are present: every cell whose row is labelled
  \<open>r\<close> and whose column is labelled \<open>c\<close> is set.\<close>

definition loc_set :: "dataframe \<Rightarrow> string \<Rightarrow> string \<Rightarrow> float \<Rightarrow> dataframe" where
  "loc_set df r c v =
     df\<lparr>df_values :=
          map2 (\<lambda>label row. if label = r
                  then map2 (\<lambda>clabel x. if clabel = c then v else x) (df_columns df) row
                  else row)
               (df_index df) (df_values df)\<rparr>"

text \<open>A \<^verbatim>\<open>for\<close> loop that updates a variable and stops at the first exception.\<close>

fun for_loop :: "'a list \<Rightarrow> ('a \<Rightarrow> 's \<Rightarrow> error + 's) \<Rightarrow> 's \<Rightarrow> error + 's" where
  "for_loop [] body s = Inr s"
| "for_loop (x # xs) body s =
     (case body x s of Inl e \<Rightarrow> Inl e | Inr s' \<Rightarrow> for_loop xs body s')"

text \<open>A \<^verbatim>\<open>dict\<close>: the items in insertion order; the keys are distinct.\<close>

definition dict_getitem :: "('k \<times> 'v) list \<Rightarrow> 'k \<Rightarrow> error + 'v" where
  "dict_getitem d k = (case map_of d k of None \<Rightarrow> Inl KeyError | Some v \<Rightarrow> Inr v)"

section \<open>Distance matrices\<close>

text \<open>
  The five builders share their loops word for word (lines 94 to 100, 121 to 128, 137 to
  145, 165 to 177 and 183 to 191): a frame of zeros labelled by the genes, and for all
  \<open>i\<close> and \<open>j\<close> of \<^verbatim>\<open>range(gene_counts)\<close> with \<open>i \<noteq> j\<close> the distance of the genes \<open>i\<close> and
  \<open>j\<close> is computed and written at their labels.  \<open>fill_distance_array\<close> is that loop, with
  the computation of the distance as its argument.
\<close>

definition fill_distance_array ::
    "string list \<Rightarrow> (nat \<Rightarrow> nat \<Rightarrow> error + float) \<Rightarrow> error + dataframe" where
  "fill_distance_array gene_list distance =
     (let gene_counts = length gene_list;
          distance_array = new_frame gene_list
      in for_loop [0..<gene_counts] (\<lambda>i.
           for_loop [0..<gene_counts] (\<lambda>j df.
             if i \<noteq> j
             then bind_res (distance i j) (\<lambda>d.
                    Inr (loc_set df (gene_list ! i) (gene_list ! j) d))
             else Inr df))
         distance_array)"

definition gmm_distance :: "(string \<times> gmm) list \<Rightarrow> string \<Rightarrow> string \<Rightarrow> error + float" where
  "gmm_distance gmm_dict gi gj =
     bind_res (dict_getitem gmm_dict gi) (\<lambda>first_gmm.
     bind_res (dict_getitem gmm_dict gj) (\<lambda>second_gmm.
     bind_res (distribution_distance first_gmm second_gmm) (\<lambda>distance. Inr (Some distance))))"

definition build_gmm_distance_array :: "(string \<times> gmm) list \<Rightarrow> error + dataframe" where
  "build_gmm_distance_array gmm_dict =
     (let gene_list = map fst gmm_dict
      in fill_distance_array gene_list
           (\<lambda>i j. gmm_distance gmm_dict (gene_list ! i) (gene_list ! j)))"

text \<open>Lines 116 to 119 and 132 to 135: the array of every gene of the list, before the loops.\<close>

definition gene_arrays ::
    "(float \<Rightarrow> int32) \<Rightarrow> adata \<Rightarrow> string list \<Rightarrow> error + (string \<times> int32 list list) list" where
  "gene_arrays cast_oob adata gene_list =
     for_each (\<lambda>gene. bind_res (get_exp_array cast_oob adata gene False)
                         (\<lambda>arr. Inr (gene, arr))) gene_list"

definition cosine_distance ::
    "(string \<times> int32 list list) list \<Rightarrow> string \<Rightarrow> string \<Rightarrow> error + float" where
  "cosine_distance gene_arr_dict gi gj =
     bind_res (dict_getitem gene_arr_dict gi) (\<lambda>arr_i.
     bind_res (dict_getitem gene_arr_dict gj) (\<lambda>arr_j.
     cosine (concat arr_i) (concat arr_j)))"

definition build_cosine_similarity_array ::
    "(float \<Rightarrow> int32) \<Rightarrow> adata \<Rightarrow> string list \<Rightarrow> error + dataframe" where
  "build_cosine_similarity_array cast_oob adata gene_list =
     bind_res (gene_arrays cast_oob adata gene_list) (\<lambda>gene_arr_dict.
       fill_distance_array gene_list
         (\<lambda>i j. cosine_distance gene_arr_dict (gene_list ! i) (gene_list ! j)))"

definition mse_distance ::
    "(string \<times> int32 list list) list \<Rightarrow> string \<Rightarrow> string \<Rightarrow> error + float" where
  "mse_distance gene_arr_dict gi gj =
     bind_res (dict_getitem gene_arr_dict gi) (\<lambda>arr_i.
     bind_res (dict_getitem gene_arr_dict gj) (\<lambda>arr_j.
     mse arr_i arr_j))"

definition build_mse_distance_array ::
    "(float \<Rightarrow> int32) \<Rightarrow> adata \<Rightarrow> string list \<Rightarrow> error + dataframe" where
  "build_mse_distance_array cast_oob adata gene_list =
     bind_res (gene_arrays cast_oob adata gene_list) (\<lambda>gene_arr_dict.
       fill_distance_array gene_list
         (\<lambda>i j. mse_distance gene_arr_dict (gene_list ! i) (gene_list ! j)))"

text \<open>\<^verbatim>\<open>adata[:, [gene]].X\<close>: the column of a gene by its name, \<^verbatim>\<open>KeyError\<close> if the dataset
  has no such gene.\<close>

definition adata_column :: "adata \<Rightarrow> string \<Rightarrow> error + real list" where
  "adata_column adata gene =
     (case filter (\<lambda>k. var_names adata ! k = gene) [0..<length (var_names adata)] of
        [] \<Rightarrow> Inl KeyError
      | k # _ \<Rightarrow> for_each (\<lambda>row. getitem row k) (X_rows adata))"

text \<open>Lines 169 to 176.  Both branches of \<^verbatim>\<open>issparse(diff)\<close> compute the mean of the
  squares of the difference.\<close>

definition mix_distance :: "adata \<Rightarrow> (string \<times> gmm) list \<Rightarrow> string \<Rightarrow> string \<Rightarrow> error + float" where
  "mix_distance adata gmm_dict gi gj =
     bind_res (adata_column adata gi) (\<lambda>xi.
     bind_res (adata_column adata gj) (\<lambda>xj.
     let diff = vsub xi xj;
         mse_distance = np_mean (map (\<lambda>x. x * x) diff)
     in bind_res (dict_getitem gmm_dict gi) (\<lambda>first_gmm.
        bind_res (dict_getitem gmm_dict gj) (\<lambda>second_gmm.
        bind_res (distribution_distance first_gmm second_gmm) (\<lambda>gmm_distance.
        Inr (map_option (\<lambda>m. m + gmm_distance) mse_distance))))))"

definition build_mix_distance_array :: "adata \<Rightarrow> (string \<times> gmm) list \<Rightarrow> error + dataframe" where
  "build_mix_distance_array adata gmm_dict =
     (let gene_list = map fst gmm_dict
      in fill_distance_array gene_list
           (\<lambda>i j. mix_distance adata gmm_dict (gene_list ! i) (gene_list ! j)))"

text \<open>Lines 187 to 189.\<close>

definition ot_distance :: "(float \<Rightarrow> int32) \<Rightarrow> adata \<Rightarrow> string \<Rightarrow> string \<Rightarrow> error + float" where
  "ot_distance cast_oob adata gi gj =
     bind_res (get_exp_array cast_oob adata gi False) (\<lambda>arr_i.
     bind_res (get_exp_array cast_oob adata gj False) (\<lambda>arr_j.
     bind_res (cdist arr_i arr_j) (\<lambda>d.
     (case linear_sum_assignment d of (rows, cols) \<Rightarrow>
        Inr (Some (matched_cost d rows cols))))))"

definition build_ot_distance_array ::
    "(float \<Rightarrow> int32) \<Rightarrow> adata \<Rightarrow> string list \<Rightarrow> error + dataframe" where
  "build_ot_distance_array cast_oob adata gene_list =
     fill_distance_array gene_list
       (\<lambda>i j. ot_distance cast_oob adata (gene_list ! i) (gene_list ! j))"

section \<open>The one-to-many query\<close>

text \<open>
  \<^verbatim>\<open>compare_gmm_distance\<close>, lines 103 to 112.  The result is the frame of one column
  sorted by that column; it is modelled by its rows, label and value.  A frame made
  from an empty \<^verbatim>\<open>dict\<close> has no column, and sorting it by column 0 raises \<^verbatim>\<open>KeyError\<close>.
\<close>

definition compare_gmm_distance :: "gmm \<Rightarrow> (string \<times> gmm) list \<Rightarrow> error + (string \<times> real) list" where
  "compare_gmm_distance gmm gmm_dict =
     (let gene_list = map fst gmm_dict
      in bind_res (for_each (\<lambda>gene.
                     bind_res (dict_getitem gmm_dict gene) (\<lambda>other.
                     bind_res (distribution_distance gmm other) (\<lambda>distance.
                     Inr (gene, distance)))) gene_list)
           (\<lambda>distance_dict.
              if distance_dict = [] then Inl KeyError
              else Inr (sort_key snd distance_dict)))"

section \<open>What a distance matrix is\<close>

text \<open>
  The frame \<open>df\<close> is the distance matrix of the genes \<open>gene_list\<close> for the pairwise
  computation \<open>distance\<close>: it is labelled by the genes, in their order, in both
  dimensions; it is square; its diagonal is 0; and its entry \<open>(i, j)\<close>, \<open>i \<noteq> j\<close>, is the
  value that the computation returns for the genes \<open>i\<close> and \<open>j\<close>.
\<close>

definition is_distance_array ::
    "string list \<Rightarrow> (nat \<Rightarrow> nat \<Rightarrow> error + float) \<Rightarrow> dataframe \<Rightarrow> bool" where
  "is_distance_array gene_list distance df \<longleftrightarrow>
     df_index df = gene_list \<and> df_columns df = gene_list
     \<and> length (df_values df) = length gene_list
     \<and> (\<forall>i<length gene_list.
           length (df_values df ! i) = length gene_list
           \<and> df_values df ! i ! i = Some 0
           \<and> (\<forall>j<length gene_list. i \<noteq> j \<longrightarrow> distance i j = Inr (df_values df ! i ! j)))"

section \<open>Valid covariance matrices\<close>

text \<open>
  A covariance matrix of dimension \<open>n\<close> is symmetric and positive definite: the
  quadratic form \<open>x\<^sup>T M x\<close> is positive at every vector but zero.
\<close>

definition quad :: "mat \<Rightarrow> vec \<Rightarrow> real" where
  "quad M x = dot x (mv M x)"

definition spd :: "nat \<Rightarrow> mat \<Rightarrow> bool" where
  "spd n M \<longleftrightarrow>
     is_square n M
     \<and> (\<forall>i<n. \<forall>j<n. M ! i ! j = M ! j ! i)
     \<and> (\<forall>x. length x = n \<and> x \<noteq> replicate n 0 \<longrightarrow> 0 < quad M x)"

text \<open>
  Auxiliary notions of the proofs: the matrix with first row \<open>a # r\<close>, first column
  \<open>a # c\<close> and the rest \<open>B\<close>; what an elimination step with the pivot \<open>a\<close> leaves of it
  (the Schur complement); and the order of the quadratic forms.
\<close>

definition bordered :: "real \<Rightarrow> vec \<Rightarrow> vec \<Rightarrow> mat \<Rightarrow> mat" where
  "bordered a r c B = (a # r) # map2 (#) c B"

definition schur :: "real \<Rightarrow> vec \<Rightarrow> vec \<Rightarrow> mat \<Rightarrow> mat" where
  "schur a r c B = map2 (\<lambda>ci Bi. vsub Bi (smul (ci / a) r)) c B"

definition quad_le :: "nat \<Rightarrow> mat \<Rightarrow> mat \<Rightarrow> bool" where
  "quad_le n Y X \<longleftrightarrow> (\<forall>x. length x = n \<longrightarrow> quad Y x \<le> quad X x)"

section \<open>The transport-style metric in the words of the specification\<close>

text \<open>
  The specification describes the transport-style metric as "an all-pairs Euclidean cost
  matrix between the two genes' value positions".  Taken by its words: the positions of
  the values of a gene are the coordinates \<open>(x, y)\<close> of the cells of its spatial array that
  are not zero, the cost of two positions is their Euclidean distance in the plane, and
  the metric is the matched cost of the assignment that the solver returns for these
  costs.  The three definitions below are this reading; they are compared with the
  code, they are not a part of it.
\<close>

definition value_positions :: "int32 list list \<Rightarrow> (nat \<times> nat) list" where
  "value_positions arr =
     concat (map (\<lambda>x. map (\<lambda>y. (x, y)) (filter (\<lambda>y. arr ! x ! y \<noteq> 0) [0..<length (arr ! x)]))
                 [0..<length arr])"

definition position_costs :: "(nat \<times> nat) list \<Rightarrow> (nat \<times> nat) list \<Rightarrow> mat" where
  "position_costs P Q =
     map (\<lambda>(x1, y1). map (\<lambda>(x2, y2). sqrt ((real x1 - real x2)\<^sup>2 + (real y1 - real y2)\<^sup>2)) Q) P"

definition transport_between_positions :: "int32 list list \<Rightarrow> int32 list list \<Rightarrow> real" where
  "transport_between_positions arr_i arr_j =
     (let d = position_costs (value_positions arr_i) (value_positions arr_j)
      in case linear_sum_assignment d of (rows, cols) \<Rightarrow> matched_cost d rows cols)"

section \<open>The loops of the module\<close>


lemma for_each_cong: "(\<And>x. x \<in> set xs \<Longrightarrow> f x = g x) \<Longrightarrow> for_each f xs = for_each g xs"
  by (induction xs) (auto split: sum.splits)

lemma for_each_length: "for_each f xs = Inr ys \<Longrightarrow> length ys = length xs"
  by (induction xs arbitrary: ys) (auto split: sum.splits)

lemma for_each_Inr: "(\<And>x. x \<in> set xs \<Longrightarrow> f x = Inr (g x)) \<Longrightarrow> for_each f xs = Inr (map g xs)"
  by (induction xs) simp_all

lemma for_each_nth: "for_each f xs = Inr ys \<Longrightarrow> i < length xs \<Longrightarrow> f (xs ! i) = Inr (ys ! i)"
  by (induction xs arbitrary: ys i) (auto split: sum.splits simp: nth_Cons split: nat.splits)

lemma for_each_Inl: "for_each f xs = Inl e \<Longrightarrow> \<exists>x\<in>set xs. f x = Inl e"
  by (induction xs) (auto split: sum.splits)

lemma for_each_fails: "x \<in> set xs \<Longrightarrow> f x = Inl e \<Longrightarrow> \<exists>e'. for_each f xs = Inl e'"
  by (induction xs) (auto split: sum.splits)

lemma getitem_take: "j < n \<Longrightarrow> getitem (take n xs) j = getitem xs j"
  by (simp add: getitem_def)

lemma distance_entry_take:
  assumes "j < n"
    and "take n (weights g2) = take n (weights g2')"
    and "take n (means g2) = take n (means g2')"
    and "take n (covariances g2) = take n (covariances g2')"
  shows "distance_entry g1 g2 i j = distance_entry g1 g2' i j"
proof -
  have "getitem (weights g2) j = getitem (weights g2') j"
    using getitem_take[OF assms(1), of "weights g2"] getitem_take[OF assms(1), of "weights g2'"] assms(2) by simp
  moreover have "getitem (means g2) j = getitem (means g2') j"
    using getitem_take[OF assms(1), of "means g2"] getitem_take[OF assms(1), of "means g2'"] assms(3) by simp
  moreover have "getitem (covariances g2) j = getitem (covariances g2') j"
    using getitem_take[OF assms(1), of "covariances g2"] getitem_take[OF assms(1), of "covariances g2'"] assms(4) by simp
  ultimately show ?thesis by (simp add: distance_entry_def)
qed

lemma distance_array_take:
  assumes "take (length (weights g1)) (weights g2) = take (length (weights g1)) (weights g2')"
    and "take (length (weights g1)) (means g2) = take (length (weights g1)) (means g2')"
    and "take (length (weights g1)) (covariances g2) = take (length (weights g1)) (covariances g2')"
  shows "distance_array g1 g2 = distance_array g1 g2'"
  unfolding distance_array_def Let_def
  by (intro for_each_cong) (simp add: distance_entry_take[OF _ assms])

lemma distance_array_shape:
  assumes "distance_array g1 g2 = Inr A"
  shows "length A = length (weights g1) \<and> (\<forall>r\<in>set A. length r = length (weights g1))"
proof -
  let ?n = "length (weights g1)"
  from assms have A: "for_each (\<lambda>i. for_each (\<lambda>j. distance_entry g1 g2 i j) [0..<?n]) [0..<?n] = Inr A"
    by (simp add: distance_array_def Let_def)
  have len: "length A = ?n" using for_each_length[OF A] by simp
  have "length r = ?n" if "r \<in> set A" for r
  proof -
    from that obtain i where i: "i < length A" "A ! i = r" by (auto simp: in_set_conv_nth)
    with len for_each_nth[OF A, of i] have "for_each (\<lambda>j. distance_entry g1 g2 i j) [0..<?n] = Inr r" by simp
    from for_each_length[OF this] show ?thesis by simp
  qed
  with len show ?thesis by blast
qed

text \<open>
  Claim C10.  When the second model has at least as many components as the first, the
  cost matrix has as many rows and columns as the first model has components, and the
  distance depends on the second model only through its first \<open>K1\<close> weights, means and
  covariances, \<open>K1\<close> the number of components of the first model: two second models
  that agree there have the same distance to the first model (the same number, or the
  same exception).
\<close>

theorem distribution_distance_first_K1:
  assumes "length (weights g1) \<le> length (weights g2)"
    and "length (weights g1) \<le> length (weights g2')"
    and "take (length (weights g1)) (weights g2) = take (length (weights g1)) (weights g2')"
    and "take (length (weights g1)) (means g2) = take (length (weights g1)) (means g2')"
    and "take (length (weights g1)) (covariances g2) = take (length (weights g1)) (covariances g2')"
  shows "distribution_distance g1 g2 = distribution_distance g1 g2'
    \<and> (\<forall>A. distance_array g1 g2 = Inr A \<longrightarrow>
          length A = length (weights g1) \<and> (\<forall>r\<in>set A. length r = length (weights g1)))"
  using distance_array_take[OF assms(3-5)] distance_array_shape[of g1 g2]
  by (simp add: distribution_distance_def)

theorem distribution_distance_first_K1_witness:
  "distribution_distance
     \<lparr>weights = [1], means = [[0]], covariances = [[[1]]]\<rparr>
     \<lparr>weights = [1 / 2, 1 / 2], means = [[0], [5]], covariances = [[[1]], [[2]]]\<rparr>
   = distribution_distance
     \<lparr>weights = [1], means = [[0]], covariances = [[[1]]]\<rparr>
     \<lparr>weights = [1 / 2, 1 / 3, 1 / 6], means = [[0], [7], [8]],
      covariances = [[[1]], [[3]], [[4]]]\<rparr>"
  using distribution_distance_first_K1
    [of "\<lparr>weights = [1], means = [[0]], covariances = [[[1]]]\<rparr>"
        "\<lparr>weights = [1 / 2, 1 / 2], means = [[0], [5]], covariances = [[[1]], [[2]]]\<rparr>"
        "\<lparr>weights = [1 / 2, 1 / 3, 1 / 6], means = [[0], [7], [8]],
          covariances = [[[1]], [[3]], [[4]]]\<rparr>"]
  by simp

section \<open>Symmetry of the Hellinger distance\<close>

lemma vadd_commute: "vadd x y = vadd y x"
  unfolding vadd_def by (induction x arbitrary: y) (case_tac y; simp)+

lemma mat_add_commute: "mat_add A B = mat_add B A"
  unfolding mat_add_def by (induction A arbitrary: B) (case_tac B; simp add: vadd_commute)+

lemma vsub_swap: "vsub y x = map uminus (vsub x y)"
  unfolding vsub_def by (induction x arbitrary: y) (case_tac y; simp)+

lemma vadd_uminus: "vadd (smul (- c) r) (map uminus v) = map uminus (vadd (smul c r) v)"
  unfolding vadd_def smul_def by (induction r arbitrary: v) (case_tac v; simp)+

lemma vm_uminus: "vm n (map uminus d) M = map uminus (vm n d M)"
  by (induction n d M rule: vm.induct) (simp_all add: vadd_uminus)

lemma dot_uminus: "dot (map uminus x) (map uminus y) = dot x y"
  unfolding dot_def by (induction x arbitrary: y) (case_tac y; simp)+

lemma fmul_commute: "fmul a b = fmul b a"
  by (cases a; cases b) (simp_all add: fmul_def)

text \<open>
  Claim C8.  The Hellinger distance is symmetric in its two components, for all
  arguments: the same number, \<^verbatim>\<open>nan\<close> or exception either way round.
\<close>

theorem get_hellinger_distance_symmetric:
  "get_hellinger_distance cov_a mean_a cov_b mean_b =
   get_hellinger_distance cov_b mean_b cov_a mean_a"
proof (cases "is_square (length mean_a) cov_a \<and> is_square (length mean_a) cov_b
               \<and> length mean_b = length mean_a")
  case False
  then show ?thesis by (auto simp: get_hellinger_distance_def Let_def)
next
  case True
  have q: "dot (vm n (vsub mean_b mean_a) Mi) (vsub mean_b mean_a) =
           dot (vm n (vsub mean_a mean_b) Mi) (vsub mean_a mean_b)" for n Mi
    by (simp add: vsub_swap[of mean_b mean_a] vm_uminus dot_uminus)
  from True show ?thesis
    by (simp add: get_hellinger_distance_def Let_def q mat_add_commute[of cov_b cov_a]
        fmul_commute[of "np_power (linalg_det cov_b) (1 / 4)"])
qed

theorem get_hellinger_distance_symmetric_witness:
  "get_hellinger_distance [[2, 0], [0, 1]] [0, 0] [[1, 0], [0, 1]] [1, 2] =
   get_hellinger_distance [[1, 0], [0, 1]] [1, 2] [[2, 0], [0, 1]] [0, 0]"
  using get_hellinger_distance_symmetric [of "[[2, 0], [0, 1]]" "[0, 0]" "[[1, 0], [0, 1]]" "[1, 2]"]
  by simp

section \<open>Determinant and inverse agree\<close>

lemma pivot_row_nonzero: "pivot_row M = Some (k, a, r, rs) \<Longrightarrow> a \<noteq> 0"
  by (induction M arbitrary: k rs rule: pivot_row.induct)
     (auto split: if_splits option.splits)

lemma inv_rec_None_iff: "inv_rec n M = None \<longleftrightarrow> det_rec n M = 0"
proof (induction n arbitrary: M)
  case 0
  then show ?case by simp
next
  case (Suc n)
  show ?case
  proof (cases "pivot_row M")
    case None
    then show ?thesis by simp
  next
    case (Some t)
    then obtain k a r rs where t: "pivot_row M = Some (k, a, r, rs)" by (cases t) auto
    with pivot_row_nonzero[OF t] Suc[of "eliminate a r rs"] show ?thesis
      by (auto simp: Let_def split: option.splits)
  qed
qed

text \<open>The two functions on a matrix of two rows and columns: the textbook formulas.\<close>

lemma linalg_det_2x2: "linalg_det [[a, b], [c, d]] = a * d - b * c"
  by (simp add: linalg_det_def eliminate_def vsub_def smul_def field_simps)

lemma linalg_inv_2x2:
  "linalg_inv [[a, b], [c, d]] =
     (if a * d - b * c = 0 then Inl LinAlgError
      else Inr [[d / (a * d - b * c), - b / (a * d - b * c)],
                [- c / (a * d - b * c), a / (a * d - b * c)]])"
proof (cases "a = 0")
  case True
  then show ?thesis
    by (simp add: linalg_inv_def eliminate_def vsub_def smul_def vadd_def mv_def dot_def
        unpivot_def Let_def field_simps)
next
  case False
  then show ?thesis
    by (simp add: linalg_inv_def eliminate_def vsub_def smul_def vadd_def mv_def dot_def
        unpivot_def Let_def field_simps)
qed

text \<open>The division of \<^verbatim>\<open>second_term\<close> never has a zero divisor: where the determinant of
  the mean covariance is zero, the inverse has raised before.\<close>

lemma get_hellinger_distance_errors:
  assumes "get_hellinger_distance c1 m1 c2 m2 = Inl e"
  shows "e \<in> {ValueError, LinAlgError}"
proof (cases "is_square (length m1) c1 \<and> is_square (length m1) c2 \<and> length m2 = length m1")
  case False
  with assms show ?thesis by (auto simp: get_hellinger_distance_def Let_def)
next
  case True
  let ?M = "mat_div (mat_add c1 c2) 2"
  show ?thesis
  proof (cases "inv_rec (length ?M) ?M")
    case None
    with assms True show ?thesis
      by (auto simp: get_hellinger_distance_def Let_def linalg_inv_def bind_res_def)
  next
    case (Some Mi)
    then have "det_rec (length ?M) ?M \<noteq> 0" using inv_rec_None_iff[of "length ?M" ?M] by simp
    then have "linalg_det ?M \<noteq> 0" by (simp add: linalg_det_def)
    with assms True Some show ?thesis
      by (auto simp: get_hellinger_distance_def Let_def linalg_inv_def bind_res_def fdiv_def
          np_sqrt_def split: if_splits option.splits)
  qed
qed

section \<open>The assignment solver on a square matrix\<close>

lemma those_map_Some: "those (map (\<lambda>x. Some (f x)) xs) = Some (map f xs)"
  by (induction xs) simp_all

lemma finite_matrix_Some:
  "finite_matrix (map (\<lambda>i. map (\<lambda>j. Some (c i j)) js) is) = Some (map (\<lambda>i. map (c i) js) is)"
  by (simp add: finite_matrix_def comp_def those_map_Some)

lemma injections_iff:
  "cols \<in> set (injections m n) \<longleftrightarrow> length cols = m \<and> set cols \<subseteq> {..<n} \<and> distinct cols"
  by (auto simp: injections_def set_n_lists)

lemma nth_in_range: "set cols \<subseteq> {..<n} \<Longrightarrow> i < length cols \<Longrightarrow> cols ! i < (n::nat)"
  using nth_mem[of i cols] by blast

lemma matched_cost_upt:
  assumes "length cols = K"
  shows "matched_cost d [0..<K] cols = (\<Sum>i<K. d ! i ! (cols ! i))"
proof -
  have "map2 (\<lambda>i j. d ! i ! j) [0..<K] cols = map (\<lambda>i. d ! i ! (cols ! i)) [0..<K]"
    using assms by (intro nth_equalityI) simp_all
  then show ?thesis
    by (simp add: matched_cost_def interv_sum_list_conv_sum_set_nat atLeast0LessThan)
qed

lemma injection_bij:
  assumes "cols \<in> set (injections K K)"
  shows "bij_betw ((!) cols) {..<K} {..<K}"
proof -
  from assms have l: "length cols = K" and s: "set cols \<subseteq> {..<K}" and d: "distinct cols"
    by (simp_all add: injections_iff)
  have inj: "inj_on ((!) cols) {..<K}"
    using d l by (auto simp: inj_on_def nth_eq_iff_index_eq)
  have "(!) cols ` {..<K} \<subseteq> {..<K}"
    using nth_in_range[OF s] l by auto
  moreover have "card ((!) cols ` {..<K}) = card {..<K}" using inj by (rule card_image)
  ultimately have "(!) cols ` {..<K} = {..<K}" by (intro card_subset_eq) simp_all
  with inj show ?thesis by (simp add: bij_betw_def)
qed

lemma bij_injection:
  assumes "bij_betw q {..<K} {..<K}"
  shows "map q [0..<K] \<in> set (injections K K)"
proof -
  from assms have "inj_on q {..<K}" and "q ` {..<K} = {..<K}" by (auto simp: bij_betw_def)
  then show ?thesis
    by (auto simp: injections_iff distinct_map atLeast0LessThan)
qed

lemma linear_sum_assignment_square:
  fixes c :: "nat \<Rightarrow> nat \<Rightarrow> real" and K :: nat
  defines "d \<equiv> map (\<lambda>i. map (c i) [0..<K]) [0..<K]"
  shows "\<exists>p. bij_betw p {..<K} {..<K}
           \<and> (case linear_sum_assignment d of (rows, cols) \<Rightarrow> matched_cost d rows cols)
               = (\<Sum>i<K. c i (p i))
           \<and> (\<forall>q. bij_betw q {..<K} {..<K} \<longrightarrow> (\<Sum>i<K. c i (p i)) \<le> (\<Sum>i<K. c i (q i)))"
proof -
  define f where "f = (\<lambda>cols. matched_cost d [0..<K] cols)"
  define best where "best = arg_min_list f (injections K K)"
  have cost: "f cols = (\<Sum>i<K. c i (cols ! i))" if "cols \<in> set (injections K K)" for cols
  proof -
    from that have l: "length cols = K" and s: "set cols \<subseteq> {..<K}" by (simp_all add: injections_iff)
    have "(\<Sum>i<K. d ! i ! (cols ! i)) = (\<Sum>i<K. c i (cols ! i))"
      using nth_in_range[OF s] l by (intro sum.cong) (simp_all add: d_def)
    then show ?thesis by (simp add: f_def matched_cost_upt[OF l])
  qed
  have ne: "injections K K \<noteq> []"
    using bij_injection[of id K] by auto
  have best_in: "best \<in> set (injections K K)"
    unfolding best_def using ne by (rule arg_min_list_in)
  have best_min: "f best \<le> f cols" if "cols \<in> set (injections K K)" for cols
    unfolding best_def using f_arg_min_list_f[OF ne, of f] that by simp
  have nc: "ncols d = K"
    by (cases "K = 0") (simp_all add: ncols_def d_def upt_conv_Cons)
  have ld: "length d = K" by (simp add: d_def)
  have "(case linear_sum_assignment d of (rows, cols) \<Rightarrow> matched_cost d rows cols) = f best"
    using nc ld by (simp add: linear_sum_assignment_def Let_def best_def f_def)
  moreover have "(\<Sum>i<K. c i (best ! i)) \<le> (\<Sum>i<K. c i (q i))" if "bij_betw q {..<K} {..<K}" for q
  proof -
    have "f best \<le> f (map q [0..<K])" using best_min bij_injection[OF that] by blast
    then show ?thesis using cost[OF best_in] cost[OF bij_injection[OF that]] by simp
  qed
  ultimately show ?thesis
    using injection_bij[OF best_in] cost[OF best_in] by (intro exI[of _ "(!) best"]) simp
qed

lemma linear_sum_square:
  assumes "0 < K"
  shows "\<exists>p. bij_betw p {..<K} {..<K}
           \<and> linear_sum (map (\<lambda>i. map (\<lambda>j. Some (c i j)) [0..<K]) [0..<K]) = Inr (\<Sum>i<K. c i (p i))
           \<and> (\<forall>q. bij_betw q {..<K} {..<K} \<longrightarrow> (\<Sum>i<K. c i (p i)) \<le> (\<Sum>i<K. c i (q i)))"
proof -
  have "ncols (map (\<lambda>i. map (\<lambda>j. Some (c i j)) [0..<K]) [0..<K]) = K"
    using assms by (simp add: ncols_def upt_conv_Cons)
  then have "linear_sum (map (\<lambda>i. map (\<lambda>j. Some (c i j)) [0..<K]) [0..<K])
      = Inr (case linear_sum_assignment (map (\<lambda>i. map (c i) [0..<K]) [0..<K]) of
               (rows, cols) \<Rightarrow> matched_cost (map (\<lambda>i. map (c i) [0..<K]) [0..<K]) rows cols)"
    using assms by (simp add: linear_sum_def finite_matrix_Some split: prod.splits)
  with linear_sum_assignment_square[of K c] show ?thesis by simp
qed

section \<open>The distance of two models with equally many components\<close>

lemma distance_entry_Inr:
  assumes "i < length (weights g1)" "i < length (means g1)" "i < length (covariances g1)"
    and "j < length (weights g2)" "j < length (means g2)" "j < length (covariances g2)"
    and "get_hellinger_distance (covariances g1 ! i) (means g1 ! i)
           (covariances g2 ! j) (means g2 ! j) = Inr (Some h)"
  shows "distance_entry g1 g2 i j = Inr (Some ((weights g1 ! i + weights g2 ! j) * h))"
  using assms by (simp add: distance_entry_def getitem_def bind_res_def fmul_def)

lemma distribution_distance_assignment:
  assumes "0 < K"
    and "length (weights g1) = K" "length (means g1) = K" "length (covariances g1) = K"
    and "length (weights g2) = K" "length (means g2) = K" "length (covariances g2) = K"
    and "\<And>i j. i < K \<Longrightarrow> j < K \<Longrightarrow>
           get_hellinger_distance (covariances g1 ! i) (means g1 ! i)
             (covariances g2 ! j) (means g2 ! j) = Inr (Some (h i j))"
  shows "\<exists>p. bij_betw p {..<K} {..<K}
     \<and> distribution_distance g1 g2
         = Inr (\<Sum>i<K. (weights g1 ! i + weights g2 ! p i) * h i (p i))
     \<and> (\<forall>q. bij_betw q {..<K} {..<K} \<longrightarrow>
           (\<Sum>i<K. (weights g1 ! i + weights g2 ! p i) * h i (p i))
           \<le> (\<Sum>i<K. (weights g1 ! i + weights g2 ! q i) * h i (q i)))"
proof -
  define c where "c = (\<lambda>i j. (weights g1 ! i + weights g2 ! j) * h i j)"
  have row: "for_each (\<lambda>j. distance_entry g1 g2 i j) [0..<K] = Inr (map (\<lambda>j. Some (c i j)) [0..<K])"
    if "i < K" for i
  proof (intro for_each_Inr)
    fix j assume "j \<in> set [0..<K]"
    then have j: "j < K" by simp
    show "distance_entry g1 g2 i j = Inr (Some (c i j))"
      unfolding c_def using that j assms(2-7) assms(8)[OF that j]
      by (intro distance_entry_Inr) simp_all
  qed
  have "distance_array g1 g2 = Inr (map (\<lambda>i. map (\<lambda>j. Some (c i j)) [0..<K]) [0..<K])"
    unfolding distance_array_def Let_def assms(2)
    by (rule for_each_Inr) (simp add: row)
  then have "distribution_distance g1 g2
      = linear_sum (map (\<lambda>i. map (\<lambda>j. Some (c i j)) [0..<K]) [0..<K])"
    by (simp add: distribution_distance_def bind_res_def)
  with linear_sum_square[OF assms(1), of c] show ?thesis by (simp add: c_def)
qed

text \<open>
  Claim C2.  Two models of \<open>K\<close> components each (\<open>K\<close> weights, means and covariances,
  \<open>K > 0\<close>) whose Hellinger distances \<open>h i j\<close> are all defined: the distance returned is the
  total cost \<open>\<Sum>i. (wA i + wB (p i)) * h i (p i)\<close> of a one-to-one assignment \<open>p\<close> of the
  components, and no one-to-one assignment has a smaller total cost.
\<close>

theorem distribution_distance_min_assignment:
  assumes "0 < K"
    and "length (weights g1) = K" "length (means g1) = K" "length (covariances g1) = K"
    and "length (weights g2) = K" "length (means g2) = K" "length (covariances g2) = K"
    and "\<And>i j. i < K \<Longrightarrow> j < K \<Longrightarrow>
           get_hellinger_distance (covariances g1 ! i) (means g1 ! i)
             (covariances g2 ! j) (means g2 ! j) = Inr (Some (h i j))"
  shows "\<exists>p. bij_betw p {..<K} {..<K}
     \<and> distribution_distance g1 g2
         = Inr (\<Sum>i<K. (weights g1 ! i + weights g2 ! p i) * h i (p i))
     \<and> (\<forall>q. bij_betw q {..<K} {..<K} \<longrightarrow>
           (\<Sum>i<K. (weights g1 ! i + weights g2 ! p i) * h i (p i))
           \<le> (\<Sum>i<K. (weights g1 ! i + weights g2 ! q i) * h i (q i)))"
  using assms by (rule distribution_distance_assignment)

lemmas hellinger_eval =
  get_hellinger_distance_def is_square_def mat_add_def mat_div_def vadd_def vsub_def smul_def
  linalg_det_def linalg_inv_def eliminate_def mv_def dot_def unpivot_def bind_res_def
  np_power_def np_sqrt_def fmul_def fdiv_def

lemma hellinger_unit_1d:
  "get_hellinger_distance [[1]] [a] [[1]] [b] = Inr (Some (sqrt \<bar>1 - exp (- ((a - b) * (a - b)) / 8)\<bar>))"
  by (simp add: hellinger_eval)

theorem distribution_distance_min_assignment_witness:
  "\<exists>p. bij_betw p {..<2} {..<2}
     \<and> distribution_distance
           \<lparr>weights = [1 / 2, 1 / 2], means = [[0], [1]], covariances = [[[1]], [[1]]]\<rparr>
           \<lparr>weights = [1 / 4, 3 / 4], means = [[1], [0]], covariances = [[[1]], [[1]]]\<rparr>
         = Inr (\<Sum>i<2. ([1 / 2, 1 / 2] ! i + [1 / 4, 3 / 4] ! p i)
                  * sqrt \<bar>1 - exp (- (([0, 1] ! i - [1, 0] ! p i) * ([0, 1] ! i - [1, 0] ! p i)) / 8)\<bar>)
     \<and> (\<forall>q. bij_betw q {..<2} {..<2} \<longrightarrow>
           (\<Sum>i<2. ([1 / 2, 1 / 2] ! i + [1 / 4, 3 / 4] ! p i)
                  * sqrt \<bar>1 - exp (- (([0, 1] ! i - [1, 0] ! p i) * ([0, 1] ! i - [1, 0] ! p i)) / 8)\<bar>)
           \<le> (\<Sum>i<2. ([1 / 2, 1 / 2] ! i + [1 / 4, 3 / 4] ! q i)
                  * sqrt \<bar>1 - exp (- (([0, 1] ! i - [1, 0] ! q i) * ([0, 1] ! i - [1, 0] ! q i)) / 8)\<bar>))"
proof -
  have two: "i = 0 \<or> i = 1" if "i < 2" for i :: nat using that by auto
  have h: "get_hellinger_distance ([[[1]], [[1]]] ! i) ([[0], [1]] ! i) ([[[1]], [[1]]] ! j) ([[1], [0]] ! j)
      = Inr (Some (sqrt \<bar>1 - exp (- (([0, 1] ! i - [1, 0] ! j) * ([0, 1] ! i - [1, 0] ! j)) / 8)\<bar>))"
    if "i < 2" "j < 2" for i j :: nat
    using two[OF that(1)] two[OF that(2)] by (auto simp: hellinger_unit_1d)
  show ?thesis
    using distribution_distance_min_assignment
      [of 2 "\<lparr>weights = [1 / 2, 1 / 2], means = [[0], [1]], covariances = [[[1]], [[1]]]\<rparr>"
          "\<lparr>weights = [1 / 4, 3 / 4], means = [[1], [0]], covariances = [[[1]], [[1]]]\<rparr>"
          "\<lambda>i j. sqrt \<bar>1 - exp (- (([0, 1] ! i - [1, 0] ! j) * ([0, 1] ! i - [1, 0] ! j)) / 8)\<bar>"]
      h
    by simp
qed

section \<open>Models with different numbers of components\<close>

lemma distance_entry_errors:
  "distance_entry g1 g2 i j = Inl e \<Longrightarrow> e \<in> {IndexError, ValueError, LinAlgError}"
  using get_hellinger_distance_errors
  by (fastforce simp: distance_entry_def bind_res_def getitem_def split: if_splits sum.splits)

lemma distance_array_errors:
  assumes "distance_array g1 g2 = Inl e"
  shows "e \<in> {IndexError, ValueError, LinAlgError}"
proof -
  from assms have "for_each (\<lambda>i. for_each (\<lambda>j. distance_entry g1 g2 i j)
      [0..<length (weights g1)]) [0..<length (weights g1)] = Inl e"
    by (simp add: distance_array_def Let_def)
  from for_each_Inl[OF this]
  obtain i where "for_each (\<lambda>j. distance_entry g1 g2 i j) [0..<length (weights g1)] = Inl e"
    by blast
  from for_each_Inl[OF this] obtain j where "distance_entry g1 g2 i j = Inl e" by blast
  then show ?thesis by (rule distance_entry_errors)
qed

lemma linear_sum_errors: "linear_sum cost = Inl e \<Longrightarrow> e = InvalidInputError"
  by (auto simp: linear_sum_def split: if_splits option.splits prod.splits)

lemma distance_entry_out_of_range:
  "length (weights g2) \<le> j \<Longrightarrow> \<exists>e. distance_entry g1 g2 i j = Inl e"
  by (auto simp: distance_entry_def bind_res_def getitem_def split: sum.splits)

lemma distance_array_fewer:
  assumes "length (weights g2) < length (weights g1)"
  shows "\<exists>e. distance_array g1 g2 = Inl e"
proof -
  let ?n = "length (weights g1)"
  obtain e where "distance_entry g1 g2 0 (length (weights g2)) = Inl e"
    using distance_entry_out_of_range[of g2 "length (weights g2)" g1 0] by auto
  with assms obtain e' where "for_each (\<lambda>j. distance_entry g1 g2 0 j) [0..<?n] = Inl e'"
    using for_each_fails[of "length (weights g2)" "[0..<?n]" "\<lambda>j. distance_entry g1 g2 0 j" e] by auto
  moreover have "0 \<in> set [0..<?n]" using assms by (cases "weights g1") simp_all
  ultimately show ?thesis
    unfolding distance_array_def Let_def
    using for_each_fails[of 0 "[0..<?n]" "\<lambda>i. for_each (\<lambda>j. distance_entry g1 g2 i j) [0..<?n]" e']
    by blast
qed

lemma linear_sum_zero_2x2: "linear_sum [[Some 0, Some 0], [Some 0, Some 0]] = Inr 0"
  by (simp add: linear_sum_def ncols_def finite_matrix_def linear_sum_assignment_def Let_def
      injections_def matched_cost_def upt_rec numeral_2_eq_2)

text \<open>
  Claim C1, as stated, fails on the code: the function never compares the component
  counts.  A model of two components and a model of three components, all components
  the standard normal distribution of the plane, have the distance 0.
\<close>

theorem distribution_distance_mismatch_counterexample:
  "length (weights \<lparr>weights = [1 / 2, 1 / 2], means = [[0, 0], [0, 0]],
                    covariances = [[[1, 0], [0, 1]], [[1, 0], [0, 1]]]\<rparr>)
   \<noteq> length (weights \<lparr>weights = [1 / 2, 1 / 4, 1 / 4], means = [[0, 0], [0, 0], [0, 0]],
                    covariances = [[[1, 0], [0, 1]], [[1, 0], [0, 1]], [[1, 0], [0, 1]]]\<rparr>)
   \<and> distribution_distance
       \<lparr>weights = [1 / 2, 1 / 2], means = [[0, 0], [0, 0]],
        covariances = [[[1, 0], [0, 1]], [[1, 0], [0, 1]]]\<rparr>
       \<lparr>weights = [1 / 2, 1 / 4, 1 / 4], means = [[0, 0], [0, 0], [0, 0]],
        covariances = [[[1, 0], [0, 1]], [[1, 0], [0, 1]], [[1, 0], [0, 1]]]\<rparr>
     = Inr 0"
proof -
  have h: "get_hellinger_distance [[1, 0], [0, 1]] [0, 0] [[1, 0], [0, 1]] [0, 0] = Inr (Some 0)"
    by (simp add: hellinger_eval)
  show ?thesis
    by (simp add: distribution_distance_def distance_array_def distance_entry_def getitem_def
        upt_rec numeral_2_eq_2 h bind_res_def[of "Inr x" for x] fmul_def linear_sum_zero_2x2)
qed

text \<open>
  Claim C1, amended.  For two models with unequal component counts the function never
  fails with \<open>ShapeMismatchError\<close>.  If the second model has fewer components than the
  first, no distance is returned: an exception is raised inside the loops, before the
  cost matrix is complete (the \<^verbatim>\<open>IndexError\<close> of the first missing component, unless a
  Hellinger evaluation before it has raised a \<^verbatim>\<open>ValueError\<close> or a \<^verbatim>\<open>LinAlgError\<close>).  If the second model has more components,
  see claim C10.
\<close>

theorem distribution_distance_mismatch:
  "distribution_distance g1 g2 \<noteq> Inl ShapeMismatchError
   \<and> (length (weights g2) < length (weights g1) \<longrightarrow>
       (\<exists>e \<in> {IndexError, ValueError, LinAlgError}.
          distance_array g1 g2 = Inl e \<and> distribution_distance g1 g2 = Inl e))"
proof -
  have "distribution_distance g1 g2 \<noteq> Inl ShapeMismatchError"
  proof (cases "distance_array g1 g2")
    case (Inl e)
    with distance_array_errors[OF Inl] show ?thesis
      by (auto simp: distribution_distance_def bind_res_def)
  next
    case (Inr A)
    then show ?thesis
      using linear_sum_errors[of A ShapeMismatchError]
      by (auto simp: distribution_distance_def bind_res_def)
  qed
  moreover have "\<exists>e \<in> {IndexError, ValueError, LinAlgError}.
      distance_array g1 g2 = Inl e \<and> distribution_distance g1 g2 = Inl e"
    if "length (weights g2) < length (weights g1)"
  proof -
    from distance_array_fewer[OF that] obtain e where e: "distance_array g1 g2 = Inl e" by blast
    with distance_array_errors[OF e] show ?thesis
      by (auto simp: distribution_distance_def bind_res_def)
  qed
  ultimately show ?thesis by blast
qed

theorem distribution_distance_mismatch_witness:
  "length (weights \<lparr>weights = [1 / 2, 1 / 2], means = [[0, 0], [0, 0]],
                    covariances = [[[1, 0], [0, 1]], [[1, 0], [0, 1]]]\<rparr>)
   < length (weights \<lparr>weights = [1 / 2, 1 / 4, 1 / 4], means = [[0, 0], [0, 0], [0, 0]],
                    covariances = [[[1, 0], [0, 1]], [[1, 0], [0, 1]], [[1, 0], [0, 1]]]\<rparr>)
   \<and> (\<exists>e \<in> {IndexError, ValueError, LinAlgError}.
        distribution_distance
          \<lparr>weights = [1 / 2, 1 / 4, 1 / 4], means = [[0, 0], [0, 0], [0, 0]],
           covariances = [[[1, 0], [0, 1]], [[1, 0], [0, 1]], [[1, 0], [0, 1]]]\<rparr>
          \<lparr>weights = [1 / 2, 1 / 2], means = [[0, 0], [0, 0]],
           covariances = [[[1, 0], [0, 1]], [[1, 0], [0, 1]]]\<rparr>
        = Inl e)"
  using distribution_distance_mismatch
    [of "\<lparr>weights = [1 / 2, 1 / 4, 1 / 4], means = [[0, 0], [0, 0], [0, 0]],
           covariances = [[[1, 0], [0, 1]], [[1, 0], [0, 1]], [[1, 0], [0, 1]]]\<rparr>"
        "\<lparr>weights = [1 / 2, 1 / 2], means = [[0, 0], [0, 0]],
           covariances = [[[1, 0], [0, 1]], [[1, 0], [0, 1]]]\<rparr>"]
  by auto

section \<open>The loops that fill a distance matrix\<close>

lemma map2_update_at:
  assumes "distinct labels" "length rows = length labels" "i < length labels"
  shows "map2 (\<lambda>label row. if label = labels ! i then f row else row) labels rows
         = rows[i := f (rows ! i)]"
  using assms by (intro nth_equalityI) (auto simp: nth_eq_iff_index_eq nth_list_update)

lemma loc_set_cell:
  assumes "distinct gl" "df_index df = gl" "df_columns df = gl"
    and "length (df_values df) = length gl" "length (df_values df ! i) = length gl"
    and "i < length gl" "j < length gl"
  shows "loc_set df (gl ! i) (gl ! j) v
         = df\<lparr>df_values := (df_values df)[i := (df_values df ! i)[j := v]]\<rparr>"
proof -
  have "map2 (\<lambda>label row. if label = gl ! i
            then map2 (\<lambda>clabel x. if clabel = gl ! j then v else x) gl row else row)
          gl (df_values df)
        = (df_values df)[i := map2 (\<lambda>clabel x. if clabel = gl ! j then v else x) gl (df_values df ! i)]"
    using assms by (intro map2_update_at) simp_all
  moreover have "map2 (\<lambda>clabel x. if clabel = gl ! j then v else x) gl (df_values df ! i)
        = (df_values df ! i)[j := v]"
    using map2_update_at[of gl "df_values df ! i" j "\<lambda>x. v"] assms by simp
  ultimately have "map2 (\<lambda>label row. if label = gl ! i
            then map2 (\<lambda>clabel x. if clabel = gl ! j then v else x) gl row else row)
          gl (df_values df) = (df_values df)[i := (df_values df ! i)[j := v]]"
    by (rule trans[OF _ arg_cong])
  then show ?thesis unfolding loc_set_def assms(2,3) by (rule arg_cong)
qed

lemma inner_loop:
  assumes "distinct gl" "df_index df = gl" "df_columns df = gl"
    and "length (df_values df) = length gl" "length (df_values df ! i) = length gl"
    and "i < length gl" "k \<le> length gl" "k \<le> i \<longrightarrow> df_values df ! i ! i = Some 0"
  shows "for_loop [k..<length gl] (\<lambda>j df.
             if i \<noteq> j then bind_res (distance i j) (\<lambda>d. Inr (loc_set df (gl ! i) (gl ! j) d))
             else Inr df) df
         = (case for_each (\<lambda>j. if i \<noteq> j then distance i j else Inr (Some 0)) [k..<length gl] of
              Inl e \<Rightarrow> Inl e
            | Inr vs \<Rightarrow> Inr (df\<lparr>df_values := (df_values df)[i := take k (df_values df ! i) @ vs]\<rparr>))"
  using assms
proof (induction "length gl - k" arbitrary: k df)
  case 0
  then show ?case by simp
next
  case (Suc m)
  then have k: "k < length gl" by simp
  let ?row = "df_values df ! i"
  have upt: "[k..<length gl] = k # [Suc k..<length gl]" using k by (simp add: upt_conv_Cons)
  show ?case
  proof (cases "i = k")
    case True
    have "take (Suc k) ?row = take k ?row @ [Some 0]"
      using Suc.prems True k by (simp add: take_Suc_conv_app_nth)
    then show ?thesis
      using Suc.hyps(1)[of "Suc k" df] Suc.hyps(2) Suc.prems True k
      by (simp add: upt split: sum.splits)
  next
    case False
    show ?thesis
    proof (cases "distance i k")
      case (Inl e)
      with False show ?thesis by (simp add: upt bind_res_def)
    next
      case (Inr d)
      let ?df' = "df\<lparr>df_values := (df_values df)[i := ?row[k := d]]\<rparr>"
      have step: "loc_set df (gl ! i) (gl ! k) d = ?df'"
        using Suc.prems k by (intro loc_set_cell) simp_all
      have tk: "take (Suc k) (?row[k := d]) = take k ?row @ [d]"
        using Suc.prems k by (simp add: take_Suc_conv_app_nth)
      have ii: "Suc k \<le> i \<longrightarrow> df_values ?df' ! i ! i = Some 0"
        using Suc.prems False by auto
      have "for_loop [Suc k..<length gl] (\<lambda>j df.
             if i \<noteq> j then bind_res (distance i j) (\<lambda>d. Inr (loc_set df (gl ! i) (gl ! j) d))
             else Inr df) ?df'
         = (case for_each (\<lambda>j. if i \<noteq> j then distance i j else Inr (Some 0)) [Suc k..<length gl] of
              Inl e \<Rightarrow> Inl e
            | Inr vs \<Rightarrow> Inr (?df'\<lparr>df_values := (df_values ?df')[i := take (Suc k) (df_values ?df' ! i) @ vs]\<rparr>))"
        using Suc.hyps(2) Suc.prems k ii by (intro Suc.hyps(1)) simp_all
      then show ?thesis
        using False Inr step tk Suc.prems
        by (simp add: upt bind_res_def split: sum.splits)
    qed
  qed
qed

lemma outer_loop:
  assumes "distinct gl" "df_index df = gl" "df_columns df = gl"
    and "length (df_values df) = length gl" "k \<le> length gl"
    and "\<And>i. k \<le> i \<Longrightarrow> i < length gl \<Longrightarrow>
           length (df_values df ! i) = length gl \<and> df_values df ! i ! i = Some 0"
  shows "for_loop [k..<length gl] (\<lambda>i. for_loop [0..<length gl] (\<lambda>j df.
             if i \<noteq> j then bind_res (distance i j) (\<lambda>d. Inr (loc_set df (gl ! i) (gl ! j) d))
             else Inr df)) df
         = (case for_each (\<lambda>i. for_each (\<lambda>j. if i \<noteq> j then distance i j else Inr (Some 0))
                                  [0..<length gl]) [k..<length gl] of
              Inl e \<Rightarrow> Inl e
            | Inr rows \<Rightarrow> Inr (df\<lparr>df_values := take k (df_values df) @ rows\<rparr>))"
  using assms
proof (induction "length gl - k" arbitrary: k df)
  case 0
  then show ?case by simp
next
  case (Suc m)
  then have k: "k < length gl" by simp
  have upt: "[k..<length gl] = k # [Suc k..<length gl]" using k by (simp add: upt_conv_Cons)
  have row: "length (df_values df ! k) = length gl" "df_values df ! k ! k = Some 0"
    using Suc.prems(6)[of k] k by simp_all
  have inner: "for_loop [0..<length gl] (\<lambda>j df.
             if k \<noteq> j then bind_res (distance k j) (\<lambda>d. Inr (loc_set df (gl ! k) (gl ! j) d))
             else Inr df) df
         = (case for_each (\<lambda>j. if k \<noteq> j then distance k j else Inr (Some 0)) [0..<length gl] of
              Inl e \<Rightarrow> Inl e
            | Inr vs \<Rightarrow> Inr (df\<lparr>df_values := (df_values df)[k := take 0 (df_values df ! k) @ vs]\<rparr>))"
    using Suc.prems(1-4) row k by (intro inner_loop) simp_all
  show ?case
  proof (cases "for_each (\<lambda>j. if k \<noteq> j then distance k j else Inr (Some 0)) [0..<length gl]")
    case (Inl e)
    with inner show ?thesis by (simp add: upt)
  next
    case (Inr vs)
    let ?df' = "df\<lparr>df_values := (df_values df)[k := vs]\<rparr>"
    have lvs: "length vs = length gl" using for_each_length[OF Inr] by simp
    have "for_loop [Suc k..<length gl] (\<lambda>i. for_loop [0..<length gl] (\<lambda>j df.
             if i \<noteq> j then bind_res (distance i j) (\<lambda>d. Inr (loc_set df (gl ! i) (gl ! j) d))
             else Inr df)) ?df'
         = (case for_each (\<lambda>i. for_each (\<lambda>j. if i \<noteq> j then distance i j else Inr (Some 0))
                                  [0..<length gl]) [Suc k..<length gl] of
              Inl e \<Rightarrow> Inl e
            | Inr rows \<Rightarrow> Inr (?df'\<lparr>df_values := take (Suc k) (df_values ?df') @ rows\<rparr>))"
      using Suc.hyps(2) Suc.prems k by (intro Suc.hyps(1)) simp_all
    moreover have "take (Suc k) ((df_values df)[k := vs]) = take k (df_values df) @ [vs]"
      using Suc.prems k by (simp add: take_Suc_conv_app_nth)
    ultimately show ?thesis
      using inner Inr by (simp add: upt split: sum.splits)
  qed
qed

lemma fill_distance_array_eq:
  assumes "distinct gene_list"
  shows "fill_distance_array gene_list distance
         = (case for_each (\<lambda>i. for_each (\<lambda>j. if i \<noteq> j then distance i j else Inr (Some 0))
                                  [0..<length gene_list]) [0..<length gene_list] of
              Inl e \<Rightarrow> Inl e
            | Inr rows \<Rightarrow> Inr \<lparr>df_index = gene_list, df_columns = gene_list, df_values = rows\<rparr>)"
  unfolding fill_distance_array_def Let_def
  using outer_loop[of gene_list "new_frame gene_list" 0 distance] assms
  by (simp add: new_frame_def split: sum.splits)

section \<open>The five builders\<close>

lemma is_distance_array_cong:
  assumes "\<And>i j. i < length gl \<Longrightarrow> j < length gl \<Longrightarrow> i \<noteq> j \<Longrightarrow> d1 i j = d2 i j"
  shows "is_distance_array gl d1 df = is_distance_array gl d2 df"
  using assms by (auto simp: is_distance_array_def)

lemma fill_distance_array_iff:
  assumes "distinct gl"
  shows "fill_distance_array gl distance = Inr df \<longleftrightarrow> is_distance_array gl distance df"
proof
  let ?n = "length gl"
  let ?g = "\<lambda>i j. if i \<noteq> j then distance i j else Inr (Some 0)"
  assume "fill_distance_array gl distance = Inr df"
  then obtain rows where rows: "for_each (\<lambda>i. for_each (?g i) [0..<?n]) [0..<?n] = Inr rows"
    and df: "df = \<lparr>df_index = gl, df_columns = gl, df_values = rows\<rparr>"
    by (auto simp: fill_distance_array_eq[OF assms] split: sum.splits)
  have len: "length rows = ?n" using for_each_length[OF rows] by simp
  have "length (rows ! i) = ?n \<and> rows ! i ! i = Some 0
        \<and> (\<forall>j<?n. i \<noteq> j \<longrightarrow> distance i j = Inr (rows ! i ! j))" if "i < ?n" for i
  proof -
    have "[0..<?n] ! i = i" using that by simp
    then have r: "for_each (?g i) [0..<?n] = Inr (rows ! i)"
      using for_each_nth[OF rows, of i] that by (simp cong: if_cong)
    have g: "?g i j = Inr (rows ! i ! j)" if "j < ?n" for j
    proof -
      have "[0..<?n] ! j = j" using that by simp
      then show ?thesis using for_each_nth[OF r, of j] that by (simp cong: if_cong)
    qed
    have "rows ! i ! i = Some 0" using g[of i] that by simp
    moreover have "distance i j = Inr (rows ! i ! j)" if "j < ?n" "i \<noteq> j" for j
      using g[of j] that by simp
    ultimately show ?thesis using for_each_length[OF r] by simp
  qed
  with len df show "is_distance_array gl distance df" by (simp add: is_distance_array_def)
next
  let ?n = "length gl"
  let ?g = "\<lambda>i j. if i \<noteq> j then distance i j else Inr (Some 0)"
  assume a: "is_distance_array gl distance df"
  have row: "for_each (?g i) [0..<?n] = Inr (df_values df ! i)" if "i < ?n" for i
  proof -
    have "for_each (?g i) [0..<?n] = Inr (map (\<lambda>j. df_values df ! i ! j) [0..<?n])"
      using a that by (intro for_each_Inr) (auto simp: is_distance_array_def)
    moreover have "map (\<lambda>j. df_values df ! i ! j) [0..<?n] = df_values df ! i"
      using a that by (intro nth_equalityI) (auto simp: is_distance_array_def)
    ultimately show ?thesis by simp
  qed
  have "for_each (\<lambda>i. for_each (?g i) [0..<?n]) [0..<?n] = Inr (map (\<lambda>i. df_values df ! i) [0..<?n])"
    by (rule for_each_Inr) (simp add: row)
  moreover have "map (\<lambda>i. df_values df ! i) [0..<?n] = df_values df"
    using a by (intro nth_equalityI) (auto simp: is_distance_array_def)
  moreover have "df = \<lparr>df_index = gl, df_columns = gl, df_values = df_values df\<rparr>"
    using a by (cases df) (simp add: is_distance_array_def)
  ultimately show "fill_distance_array gl distance = Inr df"
    by (simp add: fill_distance_array_eq[OF assms])
qed

lemma dict_getitem_nth:
  assumes "distinct (map fst d)" "i < length d"
  shows "dict_getitem d (fst (d ! i)) = Inr (snd (d ! i))"
proof -
  have "(fst (d ! i), snd (d ! i)) \<in> set d" using assms(2) by simp
  from map_of_is_SomeI[OF assms(1) this] show ?thesis by (simp add: dict_getitem_def)
qed

lemma gene_arrays_Inr:
  assumes "gene_arrays c adata gl = Inr dict" "i < length gl"
  shows "\<exists>arr. get_exp_array c adata (gl ! i) False = Inr arr
               \<and> dict_getitem dict (gl ! i) = Inr arr"
proof -
  have entry: "\<exists>arr. get_exp_array c adata (gl ! k) False = Inr arr \<and> dict ! k = (gl ! k, arr)"
    if "k < length gl" for k
    using for_each_nth[OF assms(1)[unfolded gene_arrays_def], of k] that
    by (auto simp: bind_res_def split: sum.splits)
  have len: "length dict = length gl"
    using for_each_length[OF assms(1)[unfolded gene_arrays_def]] .
  from entry[OF assms(2)] obtain arr where arr: "get_exp_array c adata (gl ! i) False = Inr arr"
    and "dict ! i = (gl ! i, arr)" by blast
  then have "(gl ! i, arr) \<in> set dict" using len assms(2) by (metis nth_mem)
  then obtain v where v: "map_of dict (gl ! i) = Some v"
    by (metis weak_map_of_SomeI)
  then have "(gl ! i, v) \<in> set dict" by (rule map_of_SomeD)
  then obtain k where "k < length gl" "dict ! k = (gl ! i, v)"
    using len by (auto simp: in_set_conv_nth)
  with entry[of k] arr have "v = arr" by auto
  with v arr show ?thesis by (simp add: dict_getitem_def)
qed

lemma gene_arrays_total:
  "(\<exists>dict. gene_arrays c adata gl = Inr dict)
   \<longleftrightarrow> (\<forall>g\<in>set gl. \<exists>arr. get_exp_array c adata g False = Inr arr)"
proof
  assume "\<exists>dict. gene_arrays c adata gl = Inr dict"
  then obtain dict where d: "gene_arrays c adata gl = Inr dict" by blast
  show "\<forall>g\<in>set gl. \<exists>arr. get_exp_array c adata g False = Inr arr"
    using gene_arrays_Inr[OF d] by (metis in_set_conv_nth)
next
  assume a: "\<forall>g\<in>set gl. \<exists>arr. get_exp_array c adata g False = Inr arr"
  have "for_each (\<lambda>gene. bind_res (get_exp_array c adata gene False) (\<lambda>arr. Inr (gene, arr))) gl
        = Inr (map (\<lambda>gene. (gene, projr (get_exp_array c adata gene False))) gl)"
    using a by (intro for_each_Inr) (auto simp: bind_res_def)
  then show "\<exists>dict. gene_arrays c adata gl = Inr dict" by (simp add: gene_arrays_def)
qed

lemma array_builder_iff:
  assumes "distinct gl"
    and "\<And>dict i j. gene_arrays c adata gl = Inr dict \<Longrightarrow> i < length gl \<Longrightarrow> j < length gl \<Longrightarrow>
           i \<noteq> j \<Longrightarrow> distance dict i j = metric i j"
  shows "bind_res (gene_arrays c adata gl) (\<lambda>dict. fill_distance_array gl (distance dict)) = Inr df
         \<longleftrightarrow> (\<forall>g\<in>set gl. \<exists>arr. get_exp_array c adata g False = Inr arr)
              \<and> is_distance_array gl metric df"
proof (cases "gene_arrays c adata gl")
  case (Inl e)
  then show ?thesis using gene_arrays_total[of c adata gl] by (simp add: bind_res_def)
next
  case (Inr dict)
  have "is_distance_array gl (distance dict) df = is_distance_array gl metric df"
    using assms(2)[OF Inr] by (intro is_distance_array_cong) simp
  then show ?thesis
    using Inr gene_arrays_total[of c adata gl] fill_distance_array_iff[OF assms(1), of "distance dict" df]
    by (simp add: bind_res_def)
qed

lemma linear_sum_1x1: "linear_sum [[Some v]] = Inr v"
  by (simp add: linear_sum_def ncols_def finite_matrix_def linear_sum_assignment_def Let_def
      injections_def matched_cost_def)

lemma distribution_distance_1d:
  "distribution_distance \<lparr>weights = [1], means = [[a]], covariances = [[[1]]]\<rparr>
      \<lparr>weights = [1], means = [[b]], covariances = [[[1]]]\<rparr>
   = Inr (2 * sqrt \<bar>1 - exp (- ((a - b) * (a - b)) / 8)\<bar>)"
  by (simp add: distribution_distance_def distance_array_def distance_entry_def getitem_def
      hellinger_unit_1d bind_res_def fmul_def linear_sum_1x1)

lemma example_array_a:
  "get_exp_array (\<lambda>v. 0)
     \<lparr>var_names = [''a'', ''b''], obs_x = [0, 1], obs_y = [0, 0], X_rows = [[1, 0], [2, 3]]\<rparr>
     ''a'' False = Inr [[1], [2]]"
  by code_simp

lemma example_array_b:
  "get_exp_array (\<lambda>v. 0)
     \<lparr>var_names = [''a'', ''b''], obs_x = [0, 1], obs_y = [0, 0], X_rows = [[1, 0], [2, 3]]\<rparr>
     ''b'' False = Inr [[0], [3]]"
  by code_simp

lemma example_mse: "mse [[1], [2]] [[0], [3]] = Inr (Some 1)" "mse [[0], [3]] [[1], [2]] = Inr (Some 1)"
  by (simp_all add: mse_def)

text \<open>
  Claim C6.  For a mapping from genes to models (a \<^verbatim>\<open>dict\<close>, keys distinct), respectively
  a list of distinct genes, each of the five builders returns a frame exactly if the
  computations it makes raise nothing, and the frame it returns is the distance matrix
  of the genes in their order for its pairwise computation: labelled by the genes in
  both dimensions, square, 0 on the diagonal (which is never computed), and its entry
  \<open>(i, j)\<close>, \<open>i \<noteq> j\<close>, is the distance computed for the genes \<open>i\<close> and \<open>j\<close>.
\<close>

theorem distance_arrays:
  assumes "distinct (map fst gmm_dict)" and "distinct gene_list"
  shows "(build_gmm_distance_array gmm_dict = Inr df1 \<longleftrightarrow>
            is_distance_array (map fst gmm_dict)
              (\<lambda>i j. bind_res (distribution_distance (snd (gmm_dict ! i)) (snd (gmm_dict ! j)))
                        (\<lambda>distance. Inr (Some distance))) df1)
       \<and> (build_cosine_similarity_array c adata gene_list = Inr df2 \<longleftrightarrow>
            (\<forall>g\<in>set gene_list. \<exists>arr. get_exp_array c adata g False = Inr arr)
            \<and> is_distance_array gene_list
              (\<lambda>i j. bind_res (get_exp_array c adata (gene_list ! i) False) (\<lambda>arr_i.
                      bind_res (get_exp_array c adata (gene_list ! j) False) (\<lambda>arr_j.
                      cosine (concat arr_i) (concat arr_j)))) df2)
       \<and> (build_mse_distance_array c adata gene_list = Inr df3 \<longleftrightarrow>
            (\<forall>g\<in>set gene_list. \<exists>arr. get_exp_array c adata g False = Inr arr)
            \<and> is_distance_array gene_list
              (\<lambda>i j. bind_res (get_exp_array c adata (gene_list ! i) False) (\<lambda>arr_i.
                      bind_res (get_exp_array c adata (gene_list ! j) False) (\<lambda>arr_j.
                      mse arr_i arr_j))) df3)
       \<and> (build_mix_distance_array adata gmm_dict = Inr df4 \<longleftrightarrow>
            is_distance_array (map fst gmm_dict)
              (\<lambda>i j. mix_distance adata gmm_dict (fst (gmm_dict ! i)) (fst (gmm_dict ! j))) df4)
       \<and> (build_ot_distance_array c adata gene_list = Inr df5 \<longleftrightarrow>
            is_distance_array gene_list
              (\<lambda>i j. ot_distance c adata (gene_list ! i) (gene_list ! j)) df5)"
proof (intro conjI)
  let ?gl = "map fst gmm_dict"
  have "is_distance_array ?gl (\<lambda>i j. gmm_distance gmm_dict (?gl ! i) (?gl ! j)) df1
      = is_distance_array ?gl
          (\<lambda>i j. bind_res (distribution_distance (snd (gmm_dict ! i)) (snd (gmm_dict ! j)))
                    (\<lambda>distance. Inr (Some distance))) df1"
    using assms(1)
    by (intro is_distance_array_cong) (simp add: gmm_distance_def dict_getitem_nth bind_res_def)
  then show "build_gmm_distance_array gmm_dict = Inr df1 \<longleftrightarrow>
            is_distance_array ?gl
              (\<lambda>i j. bind_res (distribution_distance (snd (gmm_dict ! i)) (snd (gmm_dict ! j)))
                        (\<lambda>distance. Inr (Some distance))) df1"
    using fill_distance_array_iff[OF assms(1)] by (simp add: build_gmm_distance_array_def Let_def)
next
  show "build_cosine_similarity_array c adata gene_list = Inr df2 \<longleftrightarrow>
            (\<forall>g\<in>set gene_list. \<exists>arr. get_exp_array c adata g False = Inr arr)
            \<and> is_distance_array gene_list
              (\<lambda>i j. bind_res (get_exp_array c adata (gene_list ! i) False) (\<lambda>arr_i.
                      bind_res (get_exp_array c adata (gene_list ! j) False) (\<lambda>arr_j.
                      cosine (concat arr_i) (concat arr_j)))) df2"
    unfolding build_cosine_similarity_array_def
  proof (rule array_builder_iff[OF assms(2)])
    fix dict i j assume d: "gene_arrays c adata gene_list = Inr dict"
      and "i < length gene_list" "j < length gene_list"
    then show "cosine_distance dict (gene_list ! i) (gene_list ! j)
        = bind_res (get_exp_array c adata (gene_list ! i) False) (\<lambda>arr_i.
          bind_res (get_exp_array c adata (gene_list ! j) False) (\<lambda>arr_j.
          cosine (concat arr_i) (concat arr_j)))"
      using gene_arrays_Inr[OF d, of i] gene_arrays_Inr[OF d, of j]
      by (auto simp: cosine_distance_def bind_res_def)
  qed
next
  show "build_mse_distance_array c adata gene_list = Inr df3 \<longleftrightarrow>
            (\<forall>g\<in>set gene_list. \<exists>arr. get_exp_array c adata g False = Inr arr)
            \<and> is_distance_array gene_list
              (\<lambda>i j. bind_res (get_exp_array c adata (gene_list ! i) False) (\<lambda>arr_i.
                      bind_res (get_exp_array c adata (gene_list ! j) False) (\<lambda>arr_j.
                      mse arr_i arr_j))) df3"
    unfolding build_mse_distance_array_def
  proof (rule array_builder_iff[OF assms(2)])
    fix dict i j assume d: "gene_arrays c adata gene_list = Inr dict"
      and "i < length gene_list" "j < length gene_list"
    then show "mse_distance dict (gene_list ! i) (gene_list ! j)
        = bind_res (get_exp_array c adata (gene_list ! i) False) (\<lambda>arr_i.
          bind_res (get_exp_array c adata (gene_list ! j) False) (\<lambda>arr_j.
          mse arr_i arr_j))"
      using gene_arrays_Inr[OF d, of i] gene_arrays_Inr[OF d, of j]
      by (auto simp: mse_distance_def bind_res_def)
  qed
next
  let ?gl = "map fst gmm_dict"
  have "is_distance_array ?gl (\<lambda>i j. mix_distance adata gmm_dict (?gl ! i) (?gl ! j)) df4
      = is_distance_array ?gl
          (\<lambda>i j. mix_distance adata gmm_dict (fst (gmm_dict ! i)) (fst (gmm_dict ! j))) df4"
    by (intro is_distance_array_cong) simp
  then show "build_mix_distance_array adata gmm_dict = Inr df4 \<longleftrightarrow>
            is_distance_array ?gl
              (\<lambda>i j. mix_distance adata gmm_dict (fst (gmm_dict ! i)) (fst (gmm_dict ! j))) df4"
    using fill_distance_array_iff[OF assms(1)] by (simp add: build_mix_distance_array_def Let_def)
next
  show "build_ot_distance_array c adata gene_list = Inr df5 \<longleftrightarrow>
            is_distance_array gene_list
              (\<lambda>i j. ot_distance c adata (gene_list ! i) (gene_list ! j)) df5"
    using fill_distance_array_iff[OF assms(2)] by (simp add: build_ot_distance_array_def)
qed

theorem distance_arrays_witness:
  "build_gmm_distance_array
     [(''a'', \<lparr>weights = [1], means = [[0]], covariances = [[[1]]]\<rparr>),
      (''b'', \<lparr>weights = [1], means = [[1]], covariances = [[[1]]]\<rparr>)]
   = Inr \<lparr>df_index = [''a'', ''b''], df_columns = [''a'', ''b''],
          df_values = [[Some 0, Some (2 * sqrt \<bar>1 - exp (- 1 / 8)\<bar>)],
                       [Some (2 * sqrt \<bar>1 - exp (- 1 / 8)\<bar>), Some 0]]\<rparr>
   \<and> build_mse_distance_array (\<lambda>v. 0)
       \<lparr>var_names = [''a'', ''b''], obs_x = [0, 1], obs_y = [0, 0], X_rows = [[1, 0], [2, 3]]\<rparr>
       [''a'', ''b'']
     = Inr \<lparr>df_index = [''a'', ''b''], df_columns = [''a'', ''b''],
            df_values = [[Some 0, Some 1], [Some 1, Some 0]]\<rparr>"
  using distance_arrays
    [where gmm_dict = "[(''a'', \<lparr>weights = [1], means = [[0]], covariances = [[[1]]]\<rparr>),
                        (''b'', \<lparr>weights = [1], means = [[1]], covariances = [[[1]]]\<rparr>)]"
       and gene_list = "[''a'', ''b'']"
       and ?c = "\<lambda>v. 0"
       and adata = "\<lparr>var_names = [''a'', ''b''], obs_x = [0, 1], obs_y = [0, 0],
                      X_rows = [[1, 0], [2, 3]]\<rparr>"
       and ?df1.0 = "\<lparr>df_index = [''a'', ''b''], df_columns = [''a'', ''b''],
          df_values = [[Some 0, Some (2 * sqrt \<bar>1 - exp (- 1 / 8)\<bar>)],
                       [Some (2 * sqrt \<bar>1 - exp (- 1 / 8)\<bar>), Some 0]]\<rparr>"
       and ?df3.0 = "\<lparr>df_index = [''a'', ''b''], df_columns = [''a'', ''b''],
            df_values = [[Some 0, Some 1], [Some 1, Some 0]]\<rparr>"]
  by (simp add: is_distance_array_def All_less_Suc numeral_2_eq_2 distribution_distance_1d
      bind_res_def example_array_a example_array_b example_mse)

section \<open>The one-to-many query is sorted\<close>

text \<open>
  Claim C9.  For a non-empty mapping from genes to models (keys distinct), the query
  returns, whenever every distance to the query model is computed without an exception,
  one row per gene of the mapping, each with the distance of the query model to the
  model of that gene, in non-decreasing order of the distances.
\<close>

theorem compare_gmm_distance_sorted:
  assumes "gmm_dict \<noteq> []" and "distinct (map fst gmm_dict)"
  shows "((\<forall>other \<in> set (map snd gmm_dict). \<exists>d. distribution_distance gmm other = Inr d)
            \<longrightarrow> (\<exists>rows. compare_gmm_distance gmm gmm_dict = Inr rows))
       \<and> (\<forall>rows. compare_gmm_distance gmm gmm_dict = Inr rows \<longrightarrow>
            sorted (map snd rows)
            \<and> length rows = length gmm_dict
            \<and> mset (map fst rows) = mset (map fst gmm_dict)
            \<and> (\<forall>(gene, d) \<in> set rows. \<exists>other. (gene, other) \<in> set gmm_dict
                    \<and> distribution_distance gmm other = Inr d))"
proof (intro conjI impI allI)
  let ?f = "\<lambda>gene. bind_res (dict_getitem gmm_dict gene) (\<lambda>other.
                     bind_res (distribution_distance gmm other) (\<lambda>distance.
                     Inr (gene, distance)))"
  assume a: "\<forall>other \<in> set (map snd gmm_dict). \<exists>d. distribution_distance gmm other = Inr d"
  have "?f gene = Inr (gene, projr (distribution_distance gmm (projr (dict_getitem gmm_dict gene))))"
    if "gene \<in> set (map fst gmm_dict)" for gene
  proof -
    from that obtain i where i: "i < length gmm_dict" "gene = fst (gmm_dict ! i)"
      by (auto simp: in_set_conv_nth)
    then have "dict_getitem gmm_dict gene = Inr (snd (gmm_dict ! i))"
      using dict_getitem_nth[OF assms(2)] by simp
    moreover have "\<exists>d. distribution_distance gmm (snd (gmm_dict ! i)) = Inr d"
      using a i by simp
    ultimately show ?thesis by (auto simp: bind_res_def)
  qed
  then have "for_each ?f (map fst gmm_dict)
      = Inr (map (\<lambda>gene. (gene, projr (distribution_distance gmm (projr (dict_getitem gmm_dict gene)))))
               (map fst gmm_dict))"
    by (rule for_each_Inr)
  then show "\<exists>rows. compare_gmm_distance gmm gmm_dict = Inr rows"
    using assms(1) by (simp add: compare_gmm_distance_def bind_res_def)
next
  fix rows
  let ?f = "\<lambda>gene. bind_res (dict_getitem gmm_dict gene) (\<lambda>other.
                     bind_res (distribution_distance gmm other) (\<lambda>distance.
                     Inr (gene, distance)))"
  assume "compare_gmm_distance gmm gmm_dict = Inr rows"
  then obtain dd where dd: "for_each ?f (map fst gmm_dict) = Inr dd"
    and rows: "rows = sort_key snd dd"
    by (auto simp: compare_gmm_distance_def Let_def bind_res_def split: sum.splits if_splits)
  have len: "length dd = length gmm_dict" using for_each_length[OF dd] by simp
  have entry: "fst (dd ! i) = fst (gmm_dict ! i)
       \<and> distribution_distance gmm (snd (gmm_dict ! i)) = Inr (snd (dd ! i))"
    if "i < length gmm_dict" for i
    using for_each_nth[OF dd, of i] that dict_getitem_nth[OF assms(2) that]
    by (auto simp: bind_res_def split: sum.splits dest: sym)
  have keys: "map fst dd = map fst gmm_dict"
    using len entry by (intro nth_equalityI) simp_all
  show "sorted (map snd rows)" by (simp add: rows)
  show "length rows = length gmm_dict" by (simp add: rows len)
  have "mset rows = mset dd" by (simp add: rows)
  then have "mset (map fst rows) = mset (map fst dd)" by (metis mset_map)
  then show "mset (map fst rows) = mset (map fst gmm_dict)" by (simp add: keys)
  show "\<forall>(gene, d) \<in> set rows. \<exists>other. (gene, other) \<in> set gmm_dict
                    \<and> distribution_distance gmm other = Inr d"
  proof (clarify)
    fix gene d assume "(gene, d) \<in> set rows"
    then have "(gene, d) \<in> set dd" by (simp add: rows)
    then obtain i where i: "i < length gmm_dict" "dd ! i = (gene, d)"
      using len by (auto simp: in_set_conv_nth)
    with entry[of i] have "(gene, snd (gmm_dict ! i)) \<in> set gmm_dict"
      "distribution_distance gmm (snd (gmm_dict ! i)) = Inr d"
      by (auto simp: in_set_conv_nth intro!: exI[of _ i] prod_eqI)
    then show "\<exists>other. (gene, other) \<in> set gmm_dict \<and> distribution_distance gmm other = Inr d"
      by blast
  qed
qed

theorem compare_gmm_distance_sorted_witness:
  "compare_gmm_distance \<lparr>weights = [1], means = [[0]], covariances = [[[1]]]\<rparr>
     [(''a'', \<lparr>weights = [1], means = [[2]], covariances = [[[1]]]\<rparr>),
      (''b'', \<lparr>weights = [1], means = [[0]], covariances = [[[1]]]\<rparr>)]
   = Inr [(''b'', 0), (''a'', 2 * sqrt \<bar>1 - exp (- 1 / 2)\<bar>)]"
proof -
  have "\<exists>rows. compare_gmm_distance \<lparr>weights = [1], means = [[0]], covariances = [[[1]]]\<rparr>
     [(''a'', \<lparr>weights = [1], means = [[2]], covariances = [[[1]]]\<rparr>),
      (''b'', \<lparr>weights = [1], means = [[0]], covariances = [[[1]]]\<rparr>)] = Inr rows"
    using compare_gmm_distance_sorted
      [of "[(''a'', \<lparr>weights = [1], means = [[2]], covariances = [[[1]]]\<rparr>),
            (''b'', \<lparr>weights = [1], means = [[0]], covariances = [[[1]]]\<rparr>)]"
          "\<lparr>weights = [1], means = [[0]], covariances = [[[1]]]\<rparr>"]
    by (simp add: distribution_distance_1d)
  then show ?thesis
    by (auto simp: compare_gmm_distance_def bind_res_def dict_getitem_def distribution_distance_1d)
qed

section \<open>Spatial arrays and the transport-style distance\<close>

lemma coo_todense_shape:
  assumes "coo_todense data row col = Inr dense"
  shows "length dense = nat (Max (set row)) + 1
         \<and> (\<forall>r \<in> set dense. length r = nat (Max (set col)) + 1)"
  using assms by (auto simp: coo_todense_def split: if_splits)

lemma get_exp_array_shape:
  assumes "get_exp_array c adata gene r = Inr arr"
  shows "length arr = nat (Max (set (obs_x adata))) + 1
         \<and> (\<forall>row \<in> set arr. length row = nat (Max (set (obs_y adata))) + 1)"
proof -
  from assms obtain data dense where
    d: "coo_todense data (obs_x adata) (obs_y adata) = Inr dense"
    and "arr = map (map (astype_int32 c))
       (if r then (case np_mean (filter (\<lambda>v. v \<noteq> 0) (concat dense)) of
                     None \<Rightarrow> map (map (\<lambda>v. None)) dense
                   | Some m \<Rightarrow> map (map (\<lambda>v. Some (max (v - m) 0))) dense)
        else map (map Some) dense)"
    by (auto simp: get_exp_array_def bind_res_def Let_def split: list.splits sum.splits)
  with coo_todense_shape[OF d] show ?thesis by (auto split: option.splits)
qed

lemma get_exp_array_errors:
  "get_exp_array c adata gene r = Inl e \<Longrightarrow> e \<in> {IndexError, ValueError}"
  by (auto simp: get_exp_array_def bind_res_def Let_def coo_todense_def getitem_def
      split: list.splits sum.splits if_splits dest!: for_each_Inl)

lemma cdist_same_shape:
  assumes "length XA = m" "length XB = m" "0 < m"
    and "\<forall>r \<in> set XA. length r = n" "\<forall>r \<in> set XB. length r = n"
  shows "cdist XA XB = Inr (map (\<lambda>a. map (\<lambda>b. euclidean (XA ! a) (XB ! b)) [0..<m]) [0..<m])"
proof -
  have "ncols XA = n" "ncols XB = n"
    using assms by (cases XA; cases XB; simp add: ncols_def)+
  moreover have "map (\<lambda>a. map (\<lambda>b. euclidean a b) XB) XA
      = map (\<lambda>a. map (\<lambda>b. euclidean (XA ! a) (XB ! b)) [0..<m]) [0..<m]"
    using assms(1,2) by (intro nth_equalityI) simp_all
  ultimately show ?thesis by (simp add: cdist_def)
qed

lemma euclidean_sum:
  assumes "length a = length b"
  shows "euclidean a b
         = sqrt (\<Sum>k<length a. (real_of_int (sint (a ! k)) - real_of_int (sint (b ! k)))\<^sup>2)"
proof -
  have "map2 (\<lambda>x y. (real_of_int (sint x) - real_of_int (sint y))\<^sup>2) a b
      = map (\<lambda>k. (real_of_int (sint (a ! k)) - real_of_int (sint (b ! k)))\<^sup>2) [0..<length a]"
    using assms by (intro nth_equalityI) simp_all
  then show ?thesis
    by (simp add: euclidean_def interv_sum_list_conv_sum_set_nat atLeast0LessThan)
qed

lemma cdist_arrays:
  assumes "get_exp_array c adata gi False = Inr arr_i"
    and "get_exp_array c adata gj False = Inr arr_j"
  shows "length arr_j = length arr_i"
    and "cdist arr_i arr_j
         = Inr (map (\<lambda>a. map (\<lambda>b. euclidean (arr_i ! a) (arr_j ! b)) [0..<length arr_i])
                  [0..<length arr_i])"
    and "a < length arr_i \<Longrightarrow> b < length arr_i \<Longrightarrow> length (arr_j ! b) = length (arr_i ! a)"
proof -
  let ?m = "length arr_i"
  let ?n = "nat (Max (set (obs_y adata))) + 1"
  show len: "length arr_j = ?m"
    using get_exp_array_shape[OF assms(1)] get_exp_array_shape[OF assms(2)] by simp
  have pos: "0 < ?m" using get_exp_array_shape[OF assms(1)] by simp
  show "cdist arr_i arr_j
         = Inr (map (\<lambda>a. map (\<lambda>b. euclidean (arr_i ! a) (arr_j ! b)) [0..<?m]) [0..<?m])"
    using get_exp_array_shape[OF assms(1)] get_exp_array_shape[OF assms(2)] len pos
    by (intro cdist_same_shape[where n = ?n]) simp_all
  show "length (arr_j ! b) = length (arr_i ! a)" if "a < ?m" "b < ?m"
    using get_exp_array_shape[OF assms(1)] get_exp_array_shape[OF assms(2)] len that
    by simp
qed

lemma ot_distance_value:
  assumes "get_exp_array c adata gi False = Inr arr_i"
    and "get_exp_array c adata gj False = Inr arr_j"
    and "cdist arr_i arr_j = Inr d"
  shows "\<exists>rows cols p. linear_sum_assignment d = (rows, cols)
       \<and> ot_distance c adata gi gj = Inr (Some (matched_cost d rows cols))
       \<and> bij_betw p {..<length arr_i} {..<length arr_i}
       \<and> matched_cost d rows cols = (\<Sum>a<length arr_i. d ! a ! p a)
       \<and> (\<forall>q. bij_betw q {..<length arr_i} {..<length arr_i} \<longrightarrow>
             (\<Sum>a<length arr_i. d ! a ! p a) \<le> (\<Sum>a<length arr_i. d ! a ! q a))"
proof -
  let ?m = "length arr_i"
  let ?e = "\<lambda>a b. euclidean (arr_i ! a) (arr_j ! b)"
  have d: "d = map (\<lambda>a. map (?e a) [0..<?m]) [0..<?m]"
    using cdist_arrays(2)[OF assms(1,2)] assms(3) by simp
  have sums: "(\<Sum>a<?m. d ! a ! q a) = (\<Sum>a<?m. ?e a (q a))" if "bij_betw q {..<?m} {..<?m}" for q
  proof (rule sum.cong)
    fix a assume "a \<in> {..<?m}"
    moreover from this that have "q a \<in> {..<?m}" unfolding bij_betw_def by blast
    ultimately show "d ! a ! q a = ?e a (q a)" by (subst d) simp
  qed simp
  obtain rows cols where rc: "linear_sum_assignment d = (rows, cols)"
    by (cases "linear_sum_assignment d")
  have od: "ot_distance c adata gi gj = Inr (Some (matched_cost d rows cols))"
    using assms rc by (simp add: ot_distance_def bind_res_def)
  from linear_sum_assignment_square[of ?m ?e]
  obtain p where p: "bij_betw p {..<?m} {..<?m}"
    and cost: "(case linear_sum_assignment (map (\<lambda>a. map (?e a) [0..<?m]) [0..<?m]) of
                 (rows, cols) \<Rightarrow> matched_cost (map (\<lambda>a. map (?e a) [0..<?m]) [0..<?m]) rows cols)
               = (\<Sum>a<?m. ?e a (p a))"
    and least: "\<And>q. bij_betw q {..<?m} {..<?m} \<Longrightarrow> (\<Sum>a<?m. ?e a (p a)) \<le> (\<Sum>a<?m. ?e a (q a))"
    by blast
  from cost have "matched_cost d rows cols = (\<Sum>a<?m. ?e a (p a))"
    unfolding d[symmetric] rc by simp
  then have 1: "matched_cost d rows cols = (\<Sum>a<?m. d ! a ! p a)"
    using sums[OF p] by simp
  have 2: "\<forall>q. bij_betw q {..<?m} {..<?m} \<longrightarrow> (\<Sum>a<?m. d ! a ! p a) \<le> (\<Sum>a<?m. d ! a ! q a)"
    using least sums sums[OF p] by simp
  from rc od p 1 2 show ?thesis by blast
qed

lemma cdist_entry:
  assumes "get_exp_array c adata gi False = Inr arr_i"
    and "get_exp_array c adata gj False = Inr arr_j"
    and "cdist arr_i arr_j = Inr d" "a < length arr_i" "b < length arr_i"
  shows "d ! a ! b = sqrt (\<Sum>k<length (arr_i ! a).
           (real_of_int (sint (arr_i ! a ! k)) - real_of_int (sint (arr_j ! b ! k)))\<^sup>2)"
proof -
  have l: "length (arr_i ! a) = length (arr_j ! b)"
    using cdist_arrays(3)[OF assms(1,2,4,5)] by simp
  have "d ! a ! b = euclidean (arr_i ! a) (arr_j ! b)"
    using cdist_arrays(2)[OF assms(1,2)] assms(3,4,5) by auto
  then show ?thesis using euclidean_sum[OF l] by simp
qed

lemma sqrt_25: "sqrt 25 = 5"
  using real_sqrt_abs[of 5] by simp

lemma sqrt_100: "sqrt 100 = 10"
  using real_sqrt_abs[of 10] by simp

lemma one_spot_array_a:
  "get_exp_array (\<lambda>v. 0)
     \<lparr>var_names = [''a'', ''b''], obs_x = [0], obs_y = [0], X_rows = [[1, 5]]\<rparr>
     ''a'' False = Inr [[1]]"
  by code_simp

lemma one_spot_array_b:
  "get_exp_array (\<lambda>v. 0)
     \<lparr>var_names = [''a'', ''b''], obs_x = [0], obs_y = [0], X_rows = [[1, 5]]\<rparr>
     ''b'' False = Inr [[5]]"
  by code_simp

lemma linear_sum_assignment_1x1: "linear_sum_assignment [[v]] = ([0], [0])"
  by (simp add: linear_sum_assignment_def ncols_def Let_def injections_def)

text \<open>
  Claim C5, as stated, fails on the code.  The cost matrix is not taken between the
  positions of the values: \<^verbatim>\<open>cdist\<close> is given the two spatial arrays, so it compares their
  rows, which are vectors of expression counts.  A dataset of one spot, at which gene
  \<open>a\<close> has the count 1 and gene \<open>b\<close> the count 5: the values of both genes are at the same
  position, the transport between their positions costs 0, and the entry of the matrix
  is 4.
\<close>

theorem build_ot_distance_array_positions_counterexample:
  "build_ot_distance_array (\<lambda>v. 0)
     \<lparr>var_names = [''a'', ''b''], obs_x = [0], obs_y = [0], X_rows = [[1, 5]]\<rparr> [''a'', ''b'']
   = Inr \<lparr>df_index = [''a'', ''b''], df_columns = [''a'', ''b''],
          df_values = [[Some 0, Some 4], [Some 4, Some 0]]\<rparr>
   \<and> get_exp_array (\<lambda>v. 0)
       \<lparr>var_names = [''a'', ''b''], obs_x = [0], obs_y = [0], X_rows = [[1, 5]]\<rparr> ''a'' False
     = Inr [[1]]
   \<and> get_exp_array (\<lambda>v. 0)
       \<lparr>var_names = [''a'', ''b''], obs_x = [0], obs_y = [0], X_rows = [[1, 5]]\<rparr> ''b'' False
     = Inr [[5]]
   \<and> value_positions [[1]] = [(0, 0)] \<and> value_positions [[5]] = [(0, 0)]
   \<and> transport_between_positions [[1]] [[5]] = 0"
proof -
  let ?ad = "\<lparr>var_names = [''a'', ''b''], obs_x = [0], obs_y = [0], X_rows = [[1, 5]]\<rparr>"
  have ab: "ot_distance (\<lambda>v. 0) ?ad ''a'' ''b'' = Inr (Some 4)"
    by (simp add: ot_distance_def one_spot_array_a one_spot_array_b bind_res_def cdist_def
        ncols_def euclidean_def linear_sum_assignment_1x1 matched_cost_def)
  have ba: "ot_distance (\<lambda>v. 0) ?ad ''b'' ''a'' = Inr (Some 4)"
    by (simp add: ot_distance_def one_spot_array_a one_spot_array_b bind_res_def cdist_def
        ncols_def euclidean_def linear_sum_assignment_1x1 matched_cost_def)
  have "is_distance_array [''a'', ''b'']
      (\<lambda>i j. ot_distance (\<lambda>v. 0) ?ad ([''a'', ''b''] ! i) ([''a'', ''b''] ! j))
      \<lparr>df_index = [''a'', ''b''], df_columns = [''a'', ''b''],
       df_values = [[Some 0, Some 4], [Some 4, Some 0]]\<rparr>"
    by (simp add: is_distance_array_def All_less_Suc numeral_2_eq_2 ab ba)
  then have "build_ot_distance_array (\<lambda>v. 0) ?ad [''a'', ''b'']
      = Inr \<lparr>df_index = [''a'', ''b''], df_columns = [''a'', ''b''],
             df_values = [[Some 0, Some 4], [Some 4, Some 0]]\<rparr>"
    using fill_distance_array_iff[of "[''a'', ''b'']"] by (simp add: build_ot_distance_array_def)
  moreover have p: "value_positions [[1]] = [(0, 0)]" "value_positions [[5]] = [(0, 0)]"
    by (simp_all add: value_positions_def)
  moreover have "transport_between_positions [[1]] [[5]] = 0"
    by (simp add: transport_between_positions_def p position_costs_def
        linear_sum_assignment_1x1 matched_cost_def)
  ultimately show ?thesis by (simp add: one_spot_array_a one_spot_array_b)
qed

text \<open>
  Claim C5, amended.  For a list of distinct genes, the builder returns a frame if the
  spatial array of every gene is obtained, and in the frame it returns the entry \<open>(i, j)\<close>
  of two different genes is computed from the all-pairs Euclidean cost matrix between
  the rows of the two spatial arrays: the cost of row \<open>a\<close> of the one and row \<open>b\<close> of the
  other is the root of the sum of the squares of the differences of their cells.  The
  entry is the sum of the costs matched by the assignment that the solver returns for
  this matrix, and that sum is the least total cost of a one-to-one assignment of the
  rows.
\<close>

theorem build_ot_distance_array_entry:
  assumes "distinct gene_list"
  shows "((\<forall>g \<in> set gene_list. \<exists>arr. get_exp_array c adata g False = Inr arr)
            \<longrightarrow> (\<exists>df. build_ot_distance_array c adata gene_list = Inr df))
       \<and> (\<forall>df i j. build_ot_distance_array c adata gene_list = Inr df
              \<and> i < length gene_list \<and> j < length gene_list \<and> i \<noteq> j \<longrightarrow>
            (\<exists>arr_i arr_j d rows cols p.
               get_exp_array c adata (gene_list ! i) False = Inr arr_i
               \<and> get_exp_array c adata (gene_list ! j) False = Inr arr_j
               \<and> cdist arr_i arr_j = Inr d
               \<and> length arr_j = length arr_i \<and> length d = length arr_i
               \<and> (\<forall>a<length arr_i. \<forall>b<length arr_i.
                     length (arr_j ! b) = length (arr_i ! a)
                     \<and> d ! a ! b = sqrt (\<Sum>k<length (arr_i ! a).
                          (real_of_int (sint (arr_i ! a ! k)) - real_of_int (sint (arr_j ! b ! k)))\<^sup>2))
               \<and> linear_sum_assignment d = (rows, cols)
               \<and> df_values df ! i ! j = Some (matched_cost d rows cols)
               \<and> bij_betw p {..<length arr_i} {..<length arr_i}
               \<and> matched_cost d rows cols = (\<Sum>a<length arr_i. d ! a ! p a)
               \<and> (\<forall>q. bij_betw q {..<length arr_i} {..<length arr_i} \<longrightarrow>
                     (\<Sum>a<length arr_i. d ! a ! p a) \<le> (\<Sum>a<length arr_i. d ! a ! q a))))"
proof (intro conjI impI allI)
  assume a: "\<forall>g \<in> set gene_list. \<exists>arr. get_exp_array c adata g False = Inr arr"
  let ?n = "length gene_list"
  let ?v = "\<lambda>i j. projr (ot_distance c adata (gene_list ! i) (gene_list ! j))"
  let ?df = "\<lparr>df_index = gene_list, df_columns = gene_list,
              df_values = map (\<lambda>i. map (\<lambda>j. if i = j then Some 0 else ?v i j) [0..<?n]) [0..<?n]\<rparr>"
  have ok: "\<exists>v. ot_distance c adata (gene_list ! i) (gene_list ! j) = Inr v"
    if "i < ?n" "j < ?n" for i j
  proof -
    from a that obtain arr_i arr_j where arrs:
      "get_exp_array c adata (gene_list ! i) False = Inr arr_i"
      "get_exp_array c adata (gene_list ! j) False = Inr arr_j"
      by (meson nth_mem)
    from ot_distance_value[OF arrs cdist_arrays(2)[OF arrs]] show ?thesis by blast
  qed
  have "is_distance_array gene_list (\<lambda>i j. ot_distance c adata (gene_list ! i) (gene_list ! j)) ?df"
    using ok by (fastforce simp: is_distance_array_def)
  then show "\<exists>df. build_ot_distance_array c adata gene_list = Inr df"
    using fill_distance_array_iff[OF assms] by (auto simp: build_ot_distance_array_def)
next
  fix df i j
  assume "build_ot_distance_array c adata gene_list = Inr df
              \<and> i < length gene_list \<and> j < length gene_list \<and> i \<noteq> j"
  then have b: "build_ot_distance_array c adata gene_list = Inr df"
    and ij: "i < length gene_list" "j < length gene_list" "i \<noteq> j" by simp_all
  from b have "is_distance_array gene_list
      (\<lambda>i j. ot_distance c adata (gene_list ! i) (gene_list ! j)) df"
    using fill_distance_array_iff[OF assms] by (simp add: build_ot_distance_array_def)
  with ij have v: "ot_distance c adata (gene_list ! i) (gene_list ! j) = Inr (df_values df ! i ! j)"
    by (simp add: is_distance_array_def)
  then obtain arr_i arr_j where arrs:
    "get_exp_array c adata (gene_list ! i) False = Inr arr_i"
    "get_exp_array c adata (gene_list ! j) False = Inr arr_j"
    by (auto simp: ot_distance_def bind_res_def split: sum.splits)
  obtain d where d: "cdist arr_i arr_j = Inr d"
    using cdist_arrays(2)[OF arrs] by blast
  have len: "length arr_j = length arr_i" "length d = length arr_i"
    using cdist_arrays(1,2)[OF arrs] d by auto
  have ent: "\<forall>a<length arr_i. \<forall>b<length arr_i.
                     length (arr_j ! b) = length (arr_i ! a)
                     \<and> d ! a ! b = sqrt (\<Sum>k<length (arr_i ! a).
                          (real_of_int (sint (arr_i ! a ! k)) - real_of_int (sint (arr_j ! b ! k)))\<^sup>2)"
    using cdist_arrays(3)[OF arrs] cdist_entry[OF arrs d] by blast
  from ot_distance_value[OF arrs d] obtain rows cols p where
    rc: "linear_sum_assignment d = (rows, cols)"
    and val: "ot_distance c adata (gene_list ! i) (gene_list ! j) = Inr (Some (matched_cost d rows cols))"
    and p: "bij_betw p {..<length arr_i} {..<length arr_i}"
    and sum: "matched_cost d rows cols = (\<Sum>a<length arr_i. d ! a ! p a)"
    and least: "\<forall>q. bij_betw q {..<length arr_i} {..<length arr_i} \<longrightarrow>
             (\<Sum>a<length arr_i. d ! a ! p a) \<le> (\<Sum>a<length arr_i. d ! a ! q a)"
    by blast
  from v val have cell: "df_values df ! i ! j = Some (matched_cost d rows cols)" by simp
  from arrs d len ent rc cell p sum least
  show "\<exists>arr_i arr_j d rows cols p.
               get_exp_array c adata (gene_list ! i) False = Inr arr_i
               \<and> get_exp_array c adata (gene_list ! j) False = Inr arr_j
               \<and> cdist arr_i arr_j = Inr d
               \<and> length arr_j = length arr_i \<and> length d = length arr_i
               \<and> (\<forall>a<length arr_i. \<forall>b<length arr_i.
                     length (arr_j ! b) = length (arr_i ! a)
                     \<and> d ! a ! b = sqrt (\<Sum>k<length (arr_i ! a).
                          (real_of_int (sint (arr_i ! a ! k)) - real_of_int (sint (arr_j ! b ! k)))\<^sup>2))
               \<and> linear_sum_assignment d = (rows, cols)
               \<and> df_values df ! i ! j = Some (matched_cost d rows cols)
               \<and> bij_betw p {..<length arr_i} {..<length arr_i}
               \<and> matched_cost d rows cols = (\<Sum>a<length arr_i. d ! a ! p a)
               \<and> (\<forall>q. bij_betw q {..<length arr_i} {..<length arr_i} \<longrightarrow>
                     (\<Sum>a<length arr_i. d ! a ! p a) \<le> (\<Sum>a<length arr_i. d ! a ! q a))"
    by blast
qed

lemma four_spots_array_a:
  "get_exp_array (\<lambda>v. 0)
     \<lparr>var_names = [''a'', ''b''], obs_x = [0, 0, 1, 1], obs_y = [0, 1, 0, 1],
      X_rows = [[3, 0], [4, 0], [0, 6], [0, 8]]\<rparr>
     ''a'' False = Inr [[3, 4], [0, 0]]"
  by code_simp

lemma four_spots_array_b:
  "get_exp_array (\<lambda>v. 0)
     \<lparr>var_names = [''a'', ''b''], obs_x = [0, 0, 1, 1], obs_y = [0, 1, 0, 1],
      X_rows = [[3, 0], [4, 0], [0, 6], [0, 8]]\<rparr>
     ''b'' False = Inr [[0, 0], [6, 8]]"
  by code_simp

lemma four_spots_cdist: "cdist [[3, 4], [0, 0]] [[0, 0], [6, 8]] = Inr [[5, 5], [0, 10]]"
  by (simp add: cdist_def ncols_def euclidean_def sqrt_25 sqrt_100)

lemma four_spots_assignment: "linear_sum_assignment [[5, 5], [0, 10]] = ([0, 1], [1, 0])"
  by (simp add: linear_sum_assignment_def ncols_def Let_def injections_def matched_cost_def
      upt_rec numeral_2_eq_2)

theorem build_ot_distance_array_entry_witness:
  "\<exists>df. build_ot_distance_array (\<lambda>v. 0)
           \<lparr>var_names = [''a'', ''b''], obs_x = [0, 0, 1, 1], obs_y = [0, 1, 0, 1],
            X_rows = [[3, 0], [4, 0], [0, 6], [0, 8]]\<rparr>
           [''a'', ''b''] = Inr df
        \<and> df_values df ! 0 ! 1 = Some 5"
proof -
  let ?ad = "\<lparr>var_names = [''a'', ''b''], obs_x = [0, 0, 1, 1], obs_y = [0, 1, 0, 1],
               X_rows = [[3, 0], [4, 0], [0, 6], [0, 8]]\<rparr>"
  have dist: "distinct [''a'', ''b'']" by simp
  note t = build_ot_distance_array_entry[OF dist, of "\<lambda>v. 0" ?ad]
  have "\<exists>df. build_ot_distance_array (\<lambda>v. 0) ?ad [''a'', ''b''] = Inr df"
    using t by (simp add: four_spots_array_a four_spots_array_b)
  then obtain df where df: "build_ot_distance_array (\<lambda>v. 0) ?ad [''a'', ''b''] = Inr df" by blast
  have "\<exists>arr_i arr_j d rows cols.
               get_exp_array (\<lambda>v. 0) ?ad ([''a'', ''b''] ! 0) False = Inr arr_i
               \<and> get_exp_array (\<lambda>v. 0) ?ad ([''a'', ''b''] ! 1) False = Inr arr_j
               \<and> cdist arr_i arr_j = Inr d
               \<and> linear_sum_assignment d = (rows, cols)
               \<and> df_values df ! 0 ! 1 = Some (matched_cost d rows cols)"
    using t[THEN conjunct2, rule_format, of df 0 1] df by simp blast
  then have "df_values df ! 0 ! 1 = Some 5"
    by (auto simp: four_spots_array_a four_spots_array_b four_spots_cdist four_spots_assignment
        matched_cost_def)
  with df show ?thesis by blast
qed

section \<open>A gene without signal\<close>

lemma sum_list_zeros: "(\<forall>x \<in> set xs. x = (0::real)) \<Longrightarrow> sum_list xs = 0"
  by (induction xs) simp_all

lemma coo_todense_zero:
  assumes "coo_todense data row col = Inr dense" "\<forall>v \<in> set data. v = 0"
  shows "\<forall>r \<in> set dense. \<forall>v \<in> set r. v = 0"
proof -
  have "sum_list (map fst (filter P (zip data (zip row col)))) = 0" for P
    using assms(2) by (intro sum_list_zeros) (auto dest: set_zip_leftD)
  with assms(1) show ?thesis by (auto simp: coo_todense_def split: if_splits)
qed

lemma np_round_0: "np_round 0 = 0"
  by (simp add: np_round_def)

lemma get_exp_array_never_empty_selection:
  "get_exp_array c adata gene r \<noteq> Inl EmptySelectionError"
  using get_exp_array_errors[of c adata gene r EmptySelectionError] by auto

lemma get_exp_array_zero_column:
  assumes "adata_column adata gene = Inr data" "\<forall>v \<in> set data. v = 0"
    and "get_exp_array c adata gene False = Inr arr"
  shows "get_exp_array c adata gene True = Inr (map (map (\<lambda>v. c None)) arr)"
proof -
  from assms(1) obtain k ks where
    k: "filter (\<lambda>k. var_names adata ! k = gene) [0..<length (var_names adata)] = k # ks"
    and data: "for_each (\<lambda>row. getitem row k) (X_rows adata) = Inr data"
    by (auto simp: adata_column_def split: list.splits)
  from assms(3) k data obtain dense where
    dense: "coo_todense data (obs_x adata) (obs_y adata) = Inr dense"
    and arr: "arr = map (map (astype_int32 c)) (map (map Some) dense)"
    by (auto simp: get_exp_array_def bind_res_def split: sum.splits)
  have zero: "\<forall>r \<in> set dense. \<forall>v \<in> set r. v = 0"
    using coo_todense_zero[OF dense assms(2)] .
  then have "filter (\<lambda>v. v \<noteq> 0) (concat dense) = []"
    by (auto simp: filter_empty_conv)
  then have "get_exp_array c adata gene True = Inr (map (map (\<lambda>v. c None)) dense)"
    using k data dense
    by (simp add: get_exp_array_def bind_res_def np_mean_def astype_int32_def comp_def)
  moreover have "map (map (\<lambda>v. c None)) arr = map (map (\<lambda>v. c None)) dense"
    by (simp add: arr comp_def)
  ultimately show ?thesis by simp
qed

text \<open>
  Claim C4, as stated, fails on the code: for a gene without a non-zero spot the function
  raises nothing.  The mean of the empty selection is \<^verbatim>\<open>nan\<close>, every cell becomes \<^verbatim>\<open>nan\<close>, and
  the array of the converted cells is returned (here on one spot, with the conversion of
  the x86 processors, which gives the least \<^verbatim>\<open>int32\<close>).
\<close>

theorem get_exp_array_no_signal_counterexample:
  "get_exp_array (\<lambda>v. - 2147483648)
     \<lparr>var_names = [''a''], obs_x = [0], obs_y = [0], X_rows = [[0]]\<rparr> ''a'' True
   = Inr [[- 2147483648]]"
  by (simp add: get_exp_array_def getitem_def bind_res_def coo_todense_def np_mean_def
      astype_int32_def)

text \<open>
  Claim C4, amended.  The function never fails with \<open>EmptySelectionError\<close>.  For a gene
  whose expression is zero at every spot, and a dataset for which the function returns
  an array without the correction, the function with \<^verbatim>\<open>remove_low_exp_spots=True\<close> returns
  an array of the same shape, every cell of which is the conversion of \<^verbatim>\<open>nan\<close> to \<^verbatim>\<open>int32\<close>.
\<close>

theorem get_exp_array_no_signal:
  "get_exp_array c adata gene r \<noteq> Inl EmptySelectionError
   \<and> (\<forall>data arr. adata_column adata gene = Inr data \<and> (\<forall>v \<in> set data. v = 0)
          \<and> get_exp_array c adata gene False = Inr arr
        \<longrightarrow> get_exp_array c adata gene True = Inr (map (map (\<lambda>v. c None)) arr))"
  using get_exp_array_never_empty_selection get_exp_array_zero_column by blast

theorem get_exp_array_no_signal_witness:
  "get_exp_array (\<lambda>v. 7)
     \<lparr>var_names = [''a'', ''b''], obs_x = [0, 1], obs_y = [0, 0], X_rows = [[0, 1], [0, 2]]\<rparr>
     ''a'' True
   = Inr [[7], [7]]"
proof -
  let ?ad = "\<lparr>var_names = [''a'', ''b''], obs_x = [0, 1], obs_y = [0, 0], X_rows = [[0, 1], [0, 2]]\<rparr>"
  have col: "adata_column ?ad ''a'' = Inr [0, 0]"
    by (simp add: adata_column_def getitem_def)
  have arr: "get_exp_array (\<lambda>v. 7) ?ad ''a'' False = Inr [[0], [0]]"
    by code_simp
  show ?thesis
    using get_exp_array_no_signal[of "\<lambda>v. 7" ?ad "''a''" True, THEN conjunct2, rule_format,
        of "[0, 0]" "[[0], [0]]"] col arr
    by simp
qed

section \<open>Vectors\<close>

lemma dot_Nil [simp]: "dot [] y = 0" "dot x [] = 0"
  by (simp_all add: dot_def)

lemma dot_Cons [simp]: "dot (x # xs) (y # ys) = x * y + dot xs ys"
  by (simp add: dot_def)

lemma dot_commute: "dot x y = dot y x"
  by (induction x arbitrary: y) (case_tac y; simp)+

lemma dot_replicate_0 [simp]: "dot x (replicate n 0) = 0"
  by (induction x arbitrary: n) (simp, case_tac n, simp_all)

lemma dot_replicate_0' [simp]: "dot (replicate n 0) x = 0"
  by (simp add: dot_commute[of _ x])

lemma dot_smul: "dot (smul k x) y = k * dot x y"
  unfolding smul_def by (induction x arbitrary: y) (simp, case_tac y, simp_all add: algebra_simps)

lemma dot_vadd: "length x = length y \<Longrightarrow> dot (vadd x y) z = dot x z + dot y z"
  unfolding vadd_def by (induction x y arbitrary: z rule: list_induct2) (simp, case_tac z, simp_all add: algebra_simps)

lemma dot_vsub: "length x = length y \<Longrightarrow> dot (vsub x y) z = dot x z - dot y z"
  unfolding vsub_def by (induction x y arbitrary: z rule: list_induct2) (simp, case_tac z, simp_all add: algebra_simps)

lemma length_smul [simp]: "length (smul k x) = length x"
  by (simp add: smul_def)

lemma length_vadd [simp]: "length (vadd x y) = min (length x) (length y)"
  by (simp add: vadd_def)

lemma length_vsub [simp]: "length (vsub x y) = min (length x) (length y)"
  by (simp add: vsub_def)

lemma length_mv [simp]: "length (mv M x) = length M"
  by (simp add: mv_def)

lemma mv_Nil [simp]: "mv [] x = []"
  by (simp add: mv_def)

lemma mv_Cons [simp]: "mv (r # M) x = dot r x # mv M x"
  by (simp add: mv_def)

section \<open>Bordered matrices\<close>

lemma is_square_SucE:
  assumes "is_square (Suc n) M"
  obtains a r c B where "M = bordered a r c B" "length r = n" "length c = n" "is_square n B"
proof -
  from assms obtain row rs where M: "M = row # rs" "length rs = n" "length row = Suc n"
    "\<forall>x \<in> set rs. length x = Suc n"
    by (cases M) (auto simp: is_square_def list_all_iff)
  then obtain a r where row: "row = a # r" "length r = n" by (cases row) auto
  have "rs = map2 (#) (map hd rs) (map tl rs)"
    using M(4) by (intro nth_equalityI) (auto simp: hd_Cons_tl[OF length_greater_0_conv[THEN iffD1]])
  moreover have "is_square n (map tl rs)"
    using M by (auto simp: is_square_def list_all_iff)
  ultimately show ?thesis using that[of a r "map hd rs" "map tl rs"] M row
    by (simp add: bordered_def)
qed

lemma is_square_bordered:
  "length r = n \<Longrightarrow> length c = n \<Longrightarrow> is_square n B \<Longrightarrow> is_square (Suc n) (bordered a r c B)"
  by (auto simp: is_square_def bordered_def list_all_iff set_zip)

lemma mv_bordered_rows:
  "length y = length c \<Longrightarrow> length c = length B \<Longrightarrow>
   dot y (mv (map2 (#) c B) (t # z)) = t * dot y c + dot y (mv B z)"
  by (induction y c B rule: list_induct3) (simp_all add: algebra_simps)

lemma quad_bordered:
  assumes "length z = length c" "length c = length B"
  shows "quad (bordered a r c B) (t # z) = a * t * t + t * dot r z + t * dot c z + quad B z"
  using mv_bordered_rows[OF assms, of t z]
  by (simp add: quad_def bordered_def algebra_simps dot_commute[of z c])

lemma eliminate_bordered:
  "length c = length B \<Longrightarrow> eliminate a r (map2 (#) c B) = schur a r c B"
  unfolding eliminate_def schur_def by (induction c B rule: list_induct2) simp_all

lemma is_square_schur:
  "length r = n \<Longrightarrow> length c = n \<Longrightarrow> is_square n B \<Longrightarrow> is_square n (schur a r c B)"
  by (auto simp: is_square_def schur_def list_all_iff set_zip)

lemma schur_nth:
  assumes "length c = n" "is_square n B" "length r = n" "i < n" "j < n"
  shows "schur a r c B ! i ! j = B ! i ! j - c ! i / a * r ! j"
proof -
  have "length (B ! i) = n" using assms by (auto simp: is_square_def list_all_iff)
  then show ?thesis using assms by (simp add: schur_def is_square_def vsub_def smul_def)
qed

lemma bordered_nth:
  "bordered a r c B ! 0 ! 0 = a"
  "bordered a r c B ! 0 ! Suc j = r ! j"
  "i < length c \<Longrightarrow> i < length B \<Longrightarrow> bordered a r c B ! Suc i ! 0 = c ! i"
  "i < length c \<Longrightarrow> i < length B \<Longrightarrow> bordered a r c B ! Suc i ! Suc j = B ! i ! j"
  by (simp_all add: bordered_def)

lemma mv_schur_rows:
  assumes "length y = length c" "length c = length B" "\<forall>row \<in> set B. length row = length r"
  shows "dot y (mv (schur a r c B) z) = dot y (mv B z) - dot y c * dot r z / a"
  using assms unfolding schur_def
proof (induction y c B rule: list_induct3)
  case Nil
  then show ?case by simp
next
  case (Cons y ys c cs row B)
  then show ?case by (simp add: dot_vsub dot_smul algebra_simps diff_divide_distrib add_divide_distrib)
qed

lemma quad_schur:
  assumes "length z = n" "length c = n" "is_square n B" "length r = n"
  shows "quad (schur a r c B) z = quad B z - dot z c * dot r z / a"
  unfolding quad_def using assms
  by (intro mv_schur_rows) (auto simp: is_square_def list_all_iff)

lemma pivot_row_bordered:
  "a \<noteq> 0 \<Longrightarrow> pivot_row (bordered a r c B) = Some (0, a, r, map2 (#) c B)"
  by (simp add: bordered_def)

lemma det_rec_bordered:
  "a \<noteq> 0 \<Longrightarrow> length c = length B \<Longrightarrow>
   det_rec (Suc n) (bordered a r c B) = a * det_rec n (schur a r c B)"
  by (simp add: pivot_row_bordered eliminate_bordered)

section \<open>Positive definite matrices\<close>

lemma quad_zero [simp]: "quad B (replicate n 0) = 0"
  by (simp add: quad_def)

lemma spd_borderedD:
  assumes "spd (Suc n) (bordered a r c B)" "length r = n" "length c = n" "is_square n B"
  shows "0 < a" "c = r" "spd n (schur a r c B)"
proof -
  let ?M = "bordered a r c B"
  have lB: "length B = n" using assms(4) by (simp add: is_square_def)
  have pos: "0 < quad ?M x" if "length x = Suc n" "x \<noteq> replicate (Suc n) 0" for x
    using assms(1) that by (simp add: spd_def)
  have sym: "?M ! i ! j = ?M ! j ! i" if "i < Suc n" "j < Suc n" for i j
    using assms(1) that by (simp add: spd_def)
  have "quad ?M (1 # replicate n 0) = a"
    using assms lB by (subst quad_bordered) simp_all
  moreover have "0 < quad ?M (1 # replicate n 0)" by (rule pos) simp_all
  ultimately show a: "0 < a" by simp
  show cr: "c = r"
  proof (intro nth_equalityI)
    show "length c = length r" using assms by simp
    fix i assume "i < length c"
    then show "c ! i = r ! i"
      using sym[of "Suc i" 0] assms lB by (simp add: bordered_nth)
  qed
  have "schur a r c B ! i ! j = schur a r c B ! j ! i" if "i < n" "j < n" for i j
    using sym[of "Suc i" "Suc j"] that assms lB cr
    by (simp add: schur_nth bordered_nth)
  moreover have "0 < quad (schur a r c B) z" if z: "length z = n" "z \<noteq> replicate n 0" for z
  proof -
    let ?t = "- dot r z / a"
    have "quad ?M (?t # z) = a * ?t * ?t + ?t * dot r z + ?t * dot c z + quad B z"
      using z assms lB by (intro quad_bordered) simp_all
    also have "\<dots> = quad B z - dot z c * dot r z / a"
      using a cr by (simp add: field_simps dot_commute[of z r])
    also have "\<dots> = quad (schur a r c B) z"
      using z assms by (simp add: quad_schur)
    finally have "quad (schur a r c B) z = quad ?M (?t # z)" by simp
    moreover have "0 < quad ?M (?t # z)" using z by (intro pos) simp_all
    ultimately show ?thesis by simp
  qed
  ultimately show "spd n (schur a r c B)"
    using is_square_schur[OF assms(2,3,4)] by (simp add: spd_def)
qed

lemma det_rec_pos: "spd n M \<Longrightarrow> 0 < det_rec n M"
proof (induction n arbitrary: M)
  case 0
  then show ?case by simp
next
  case (Suc n)
  then have "is_square (Suc n) M" by (simp add: spd_def)
  then obtain a r c B where M: "M = bordered a r c B" "length r = n" "length c = n" "is_square n B"
    by (rule is_square_SucE)
  from spd_borderedD[OF Suc.prems[unfolded M(1)] M(2,3,4)]
  have "0 < a" "spd n (schur a r c B)" by simp_all
  moreover have "length c = length B" using M by (simp add: is_square_def)
  ultimately show ?case
    using Suc.IH[of "schur a r c B"] det_rec_bordered[of a c B n r] by (simp add: M(1))
qed

lemma linalg_det_pos: "spd n M \<Longrightarrow> 0 < linalg_det M"
  using det_rec_pos[of n M] by (simp add: linalg_det_def spd_def is_square_def)

section \<open>The mean of two matrices\<close>

lemma mean_nth:
  assumes "is_square n A" "is_square n B" "i < n" "j < n"
  shows "mat_div (mat_add A B) 2 ! i ! j = (A ! i ! j + B ! i ! j) / 2"
proof -
  have "length (A ! i) = n" "length (B ! i) = n"
    using assms by (auto simp: is_square_def list_all_iff)
  then show ?thesis using assms by (simp add: mat_div_def mat_add_def vadd_def is_square_def)
qed

lemma is_square_mean:
  "is_square n A \<Longrightarrow> is_square n B \<Longrightarrow> is_square n (mat_div (mat_add A B) 2)"
  by (auto simp: is_square_def mat_div_def mat_add_def list_all_iff set_zip)

lemma half_smul: "map (\<lambda>x. x / 2) v = smul (1 / 2) v"
  by (induction v) (simp_all add: smul_def)

lemma dot_half: "dot (map (\<lambda>x. x / 2) v) z = dot v z / 2"
  by (simp add: half_smul dot_smul)

lemma mv_mean_rows:
  assumes "length y = length A" "length A = length B"
    and "\<forall>r \<in> set A. length r = n" "\<forall>r \<in> set B. length r = n"
  shows "dot y (mv (mat_div (mat_add A B) 2) x) = (dot y (mv A x) + dot y (mv B x)) / 2"
  using assms unfolding mat_div_def mat_add_def
  by (induction y A B rule: list_induct3)
     (simp_all add: dot_half dot_vadd algebra_simps add_divide_distrib)

lemma quad_mean:
  assumes "is_square n A" "is_square n B" "length x = n"
  shows "quad (mat_div (mat_add A B) 2) x = (quad A x + quad B x) / 2"
  unfolding quad_def using assms
  by (intro mv_mean_rows[where n = n]) (auto simp: is_square_def list_all_iff)

lemma spd_mean:
  assumes "spd n A" "spd n B"
  shows "spd n (mat_div (mat_add A B) 2)"
proof -
  have sq: "is_square n A" "is_square n B" using assms by (simp_all add: spd_def)
  have "0 < quad (mat_div (mat_add A B) 2) x" if "length x = n" "x \<noteq> replicate n 0" for x
  proof -
    have "0 < quad A x" "0 < quad B x" using assms that by (simp_all add: spd_def)
    then show ?thesis using quad_mean[OF sq that(1)] by simp
  qed
  moreover have "mat_div (mat_add A B) 2 ! i ! j = mat_div (mat_add A B) 2 ! j ! i"
    if "i < n" "j < n" for i j
    using assms that by (simp add: mean_nth[OF sq] spd_def)
  ultimately show ?thesis using is_square_mean[OF sq] by (simp add: spd_def)
qed

lemma mean_bordered:
  assumes "length c = length A" "length d = length B"
  shows "mat_div (mat_add (bordered a r c A) (bordered b s d B)) 2
         = bordered ((a + b) / 2) (map (\<lambda>x. x / 2) (vadd r s)) (map (\<lambda>x. x / 2) (vadd c d))
             (mat_div (mat_add A B) 2)"
proof -
  have "map (map (\<lambda>x. x / 2)) (map2 vadd (map2 (#) c A) (map2 (#) d B))
      = map2 (#) (map (\<lambda>x. x / 2) (map2 (+) c d)) (map (map (\<lambda>x. x / 2)) (map2 vadd A B))"
    using assms
  proof (induction c A arbitrary: d B rule: list_induct2)
    case Nil
    then show ?case by simp
  next
    case (Cons x xs y ys)
    then show ?case by (cases d; cases B) (simp_all add: vadd_def)
  qed
  then show ?thesis by (simp add: bordered_def mat_div_def mat_add_def vadd_def)
qed

section \<open>The inverse of a positive definite matrix\<close>

lemma length_vm: "length (vm n x M) \<le> n"
  by (induction n x M rule: vm.induct) simp_all

lemma length_vm_square:
  "\<forall>r \<in> set M. length r = n \<Longrightarrow> length (vm n x M) = n"
  by (induction n x M rule: vm.induct) simp_all

lemma dot_vm:
  assumes "\<forall>r \<in> set M. length r = n"
  shows "dot (vm n x M) y = dot x (mv M y)"
  using assms
proof (induction n x M rule: vm.induct)
  case (1 n x xs r rs)
  then show ?case by (simp add: dot_vadd dot_smul length_vm_square)
qed simp_all

lemma mv_vsub_smul:
  assumes "\<forall>row \<in> set M. length row = n" "length z = n" "length r = n"
  shows "mv M (vsub z (smul k r)) = vsub (mv M z) (smul k (mv M r))"
  using assms(1)
proof (induction M)
  case Nil
  then show ?case by (simp add: vsub_def smul_def)
next
  case (Cons row M)
  have "dot row (vsub z (smul k r)) = dot row z - k * dot row r"
    using assms(2,3) dot_vsub[of z "smul k r" row]
    by (simp add: dot_commute[of row] dot_smul)
  with Cons show ?case by (simp add: vsub_def smul_def)
qed

lemma unpivot_0: "unpivot 0 (x # xs) = x # xs"
  by (simp add: unpivot_def)

lemma map_unpivot_0: "map (unpivot 0) (map2 (#) c B) = map2 (#) c B"
  by (induction c arbitrary: B) (simp, case_tac B, simp_all add: unpivot_0)

lemma dot_smul_right: "dot y (smul k x) = k * dot y x"
  using dot_smul[of k x y] by (simp add: dot_commute[of y])

lemma map_hd_bordered_rows: "length c = length B \<Longrightarrow> map hd (map2 (#) c B) = c"
  by (induction c B rule: list_induct2) simp_all

lemma map2_scaled_Cons:
  "map2 (\<lambda>ui row. (- ui / a) # row) u Si = map2 (#) (smul (- 1 / a) u) Si"
  by (induction u arbitrary: Si) (simp add: smul_def, case_tac Si, simp_all add: smul_def)

lemma inv_rec_bordered:
  assumes "a \<noteq> 0" "length c = length B" "inv_rec n (schur a r c B) = Some Si"
  shows "inv_rec (Suc n) (bordered a r c B)
         = Some (bordered (1 / a + dot r (mv Si c) / (a * a)) (smul (- 1 / a) (vm n r Si))
                   (smul (- 1 / a) (mv Si c)) Si)"
proof -
  have "inv_rec (Suc n) (bordered a r c B)
      = Some (map (unpivot 0)
          (((1 / a + dot r (mv Si c) / (a * a)) # smul (- 1 / a) (vm n r Si))
           # map2 (\<lambda>ui row. (- ui / a) # row) (mv Si c) Si))"
    by (simp only: inv_rec.simps pivot_row_bordered[OF assms(1)] option.case prod.case
        eliminate_bordered[OF assms(2)] assms(3) Let_def map_hd_bordered_rows[OF assms(2)])
  then show ?thesis
    unfolding map2_scaled_Cons bordered_def
    by (simp only: list.map unpivot_0 map_unpivot_0)
qed

lemma inv_rec_spd:
  assumes "spd n M"
  shows "\<exists>Mi. inv_rec n M = Some Mi \<and> is_square n Mi
           \<and> (\<forall>x y. length x = n \<and> length y = n \<longrightarrow> dot x (mv Mi y) = dot y (mv Mi x))
           \<and> (\<forall>x. length x = n \<longrightarrow> 0 \<le> quad Mi x)"
  using assms
proof (induction n arbitrary: M)
  case 0
  then show ?case by (simp add: is_square_def quad_def)
next
  case (Suc n)
  then have "is_square (Suc n) M" by (simp add: spd_def)
  then obtain a r c B where M: "M = bordered a r c B" "length r = n" "length c = n" "is_square n B"
    by (rule is_square_SucE)
  from spd_borderedD[OF Suc.prems[unfolded M(1)] M(2,3,4)]
  have a: "0 < a" and cr: "c = r" and S: "spd n (schur a r c B)" by simp_all
  from Suc.IH[OF S] obtain Si where Si: "inv_rec n (schur a r c B) = Some Si" "is_square n Si"
    and sym: "\<And>x y. length x = n \<Longrightarrow> length y = n \<Longrightarrow> dot x (mv Si y) = dot y (mv Si x)"
    and psd: "\<And>x. length x = n \<Longrightarrow> 0 \<le> quad Si x"
    by blast
  have rows: "\<forall>row \<in> set Si. length row = n" and lSi: "length Si = n"
    using Si(2) by (auto simp: is_square_def list_all_iff)
  have lB: "length B = n" using M(4) by (simp add: is_square_def)
  let ?\<alpha> = "1 / a + dot r (mv Si r) / (a * a)"
  let ?p = "smul (- 1 / a) (vm n r Si)"
  let ?q = "smul (- 1 / a) (mv Si r)"
  let ?Mi = "bordered ?\<alpha> ?p ?q Si"
  have inv: "inv_rec (Suc n) M = Some ?Mi"
    using inv_rec_bordered[of a c B n r Si] a M lB Si(1) cr by simp
  have sq: "is_square (Suc n) ?Mi"
    using M(2) lSi Si(2) rows by (intro is_square_bordered) (simp_all add: length_vm_square)
  have bil: "dot (t # z) (mv ?Mi (t' # z'))
      = t * t' / a + t * t' * dot r (mv Si r) / (a * a)
        - t / a * dot r (mv Si z') - t' / a * dot z (mv Si r) + dot z (mv Si z')"
    if "length z = n" "length z' = n" for t t' z z'
  proof -
    have 1: "dot z (mv (map2 (#) ?q Si) (t' # z')) = t' * dot z ?q + dot z (mv Si z')"
      using that lSi by (intro mv_bordered_rows) simp_all
    have 2: "dot z ?q = - 1 / a * dot z (mv Si r)"
      by (rule dot_smul_right)
    have 3: "dot ?p z' = - 1 / a * dot r (mv Si z')"
      using rows by (simp add: dot_smul dot_vm)
    have "dot (t # z) (mv ?Mi (t' # z'))
        = t * (?\<alpha> * t' + dot ?p z') + dot z (mv (map2 (#) ?q Si) (t' # z'))"
      by (simp add: bordered_def)
    also have "\<dots> = t * (?\<alpha> * t' + - 1 / a * dot r (mv Si z'))
        + (t' * (- 1 / a * dot z (mv Si r)) + dot z (mv Si z'))"
      unfolding 1 2 3 ..
    finally show ?thesis by (simp add: algebra_simps add_divide_distrib)
  qed
  have "dot x (mv ?Mi y) = dot y (mv ?Mi x)" if "length x = Suc n" "length y = Suc n" for x y
  proof -
    from that obtain t z t' z' where x: "x = t # z" "length z = n" and y: "y = t' # z'" "length z' = n"
      by (cases x; cases y) auto
    show ?thesis
      unfolding x y bil[OF x(2) y(2)] bil[OF y(2) x(2)]
      using sym[OF x(2) y(2)] sym[OF M(2) x(2)] sym[OF M(2) y(2)] by (simp add: algebra_simps)
  qed
  moreover have "0 \<le> quad ?Mi x" if "length x = Suc n" for x
  proof -
    from that obtain t z where x: "x = t # z" "length z = n" by (cases x) auto
    let ?w = "vsub z (smul (t / a) r)"
    have lw: "length ?w = n" using x M(2) by simp
    have "mv Si ?w = vsub (mv Si z) (smul (t / a) (mv Si r))"
      using rows x(2) M(2) by (rule mv_vsub_smul)
    have mvw: "mv Si ?w = vsub (mv Si z) (smul (t / a) (mv Si r))"
      using rows x(2) M(2) by (rule mv_vsub_smul)
    have dw: "dot ?w y = dot z y - t / a * dot r y" for y
      using x(2) M(2) by (simp add: dot_vsub dot_smul)
    have "quad Si ?w = dot (vsub (mv Si z) (smul (t / a) (mv Si r))) ?w"
      unfolding quad_def mvw by (rule dot_commute)
    also have "\<dots> = dot (mv Si z) ?w - t / a * dot (mv Si r) ?w"
      by (simp add: dot_vsub dot_smul)
    also have "\<dots> = dot ?w (mv Si z) - t / a * dot ?w (mv Si r)"
      by (simp only: dot_commute[of ?w])
    finally have "quad Si ?w = (dot z (mv Si z) - t / a * dot r (mv Si z))
        - t / a * (dot z (mv Si r) - t / a * dot r (mv Si r))"
      unfolding dw .
    then have "quad ?Mi x = t * t / a + quad Si ?w"
      unfolding x quad_def[of ?Mi] bil[OF x(2) x(2)]
      using sym[OF M(2) x(2)] by (simp add: algebra_simps)
    moreover have "0 \<le> t * t / a" using a by simp
    ultimately show ?thesis using psd[OF lw] by simp
  qed
  ultimately show ?case using inv sq by blast
qed

section \<open>Determinants of ordered and of averaged matrices\<close>

lemma quad_unit: 
  assumes "length r = n" "length c = n" "length B = n"
  shows "quad (bordered a r c B) (1 # replicate n 0) = a"
  using assms by (subst quad_bordered) simp_all

lemma quad_schur_min:
  assumes "0 < a" "length z = n" "length r = n" "is_square n B"
  shows "quad (schur a r r B) z \<le> quad (bordered a r r B) (t # z)"
proof -
  have lB: "length B = n" using assms by (simp add: is_square_def)
  have "quad (bordered a r r B) (t # z) - quad (schur a r r B) z
      = a * (t + dot r z / a) * (t + dot r z / a)"
    using assms lB
    by (simp add: quad_bordered quad_schur dot_commute[of z r] field_simps)
  moreover have "0 \<le> a * (t + dot r z / a) * (t + dot r z / a)"
    using assms(1) by (simp add: mult.assoc)
  ultimately show ?thesis by simp
qed

lemma quad_schur_attained:
  assumes "0 < a" "length z = n" "length r = n" "is_square n B"
  shows "quad (schur a r r B) z = quad (bordered a r r B) ((- dot r z / a) # z)"
proof -
  have lB: "length B = n" using assms by (simp add: is_square_def)
  show ?thesis
    using assms lB
    by (simp add: quad_bordered quad_schur dot_commute[of z r] field_simps)
qed

lemma det_rec_mono:
  assumes "spd n X" "spd n Y" "quad_le n Y X"
  shows "det_rec n Y \<le> det_rec n X"
  using assms
proof (induction n arbitrary: X Y)
  case 0
  then show ?case by simp
next
  case (Suc n)
  from Suc.prems(1) have "is_square (Suc n) X" by (simp add: spd_def)
  then obtain x r c X' where X: "X = bordered x r c X'" "length r = n" "length c = n" "is_square n X'"
    by (rule is_square_SucE)
  from Suc.prems(2) have "is_square (Suc n) Y" by (simp add: spd_def)
  then obtain y s d Y' where Y: "Y = bordered y s d Y'" "length s = n" "length d = n" "is_square n Y'"
    by (rule is_square_SucE)
  from spd_borderedD[OF Suc.prems(1)[unfolded X(1)] X(2,3,4)]
  have x: "0 < x" and cr: "c = r" and SX: "spd n (schur x r c X')" by simp_all
  from spd_borderedD[OF Suc.prems(2)[unfolded Y(1)] Y(2,3,4)]
  have y: "0 < y" and ds: "d = s" and SY: "spd n (schur y s d Y')" by simp_all
  have lX: "length X' = n" and lY: "length Y' = n" using X Y by (simp_all add: is_square_def)
  have le: "quad Y v \<le> quad X v" if "length v = Suc n" for v
    using Suc.prems(3) that by (simp add: quad_le_def)
  have "y \<le> x"
    using le[of "1 # replicate n 0"] quad_unit[OF X(2,3) lX, of x] quad_unit[OF Y(2,3) lY, of y]
    by (simp add: X(1) Y(1))
  moreover have "quad_le n (schur y s d Y') (schur x r c X')"
    unfolding quad_le_def
  proof (intro allI impI)
    fix z :: vec assume z: "length z = n"
    let ?t = "- dot r z / x"
    have "quad (schur y s s Y') z \<le> quad (bordered y s s Y') (?t # z)"
      using y z Y(2,4) by (rule quad_schur_min)
    also have "\<dots> \<le> quad (bordered x r r X') (?t # z)"
      using le[of "?t # z"] z by (simp add: X(1) Y(1) cr ds)
    also have "\<dots> = quad (schur x r r X') z"
      using quad_schur_attained[OF x z X(2,4)] by simp
    finally show "quad (schur y s d Y') z \<le> quad (schur x r c X') z" by (simp add: cr ds)
  qed
  ultimately have "y * det_rec n (schur y s d Y') \<le> x * det_rec n (schur x r c X')"
    using Suc.IH[OF SX SY] det_rec_pos[OF SY] y by (intro mult_mono) simp_all
  then show ?case
    using det_rec_bordered[of x c X' n r] det_rec_bordered[of y d Y' n s] x y X Y lX lY
    by simp
qed

lemma titu:
  fixes a b p q :: real
  assumes "0 < a" "0 < b"
  shows "(p + q) * (p + q) / (a + b) \<le> p * p / a + q * q / b"
proof -
  have "p * p / a + q * q / b - (p + q) * (p + q) / (a + b)
      = (b * p - a * q) * (b * p - a * q) / (a * b * (a + b))"
    using assms by (simp add: field_simps)
  moreover have "0 \<le> (b * p - a * q) * (b * p - a * q) / (a * b * (a + b))"
    using assms by simp
  ultimately show ?thesis by linarith
qed

lemma titu_half:
  fixes a b p q :: real
  assumes "0 < a" "0 < b"
  shows "((p + q) / 2) * ((p + q) / 2) / ((a + b) / 2) \<le> (p * p / a + q * q / b) / 2"
proof -
  have "((p + q) / 2) * ((p + q) / 2) / ((a + b) / 2) = ((p + q) * (p + q) / (a + b)) / 2"
    by simp
  also have "\<dots> \<le> (p * p / a + q * q / b) / 2"
    using titu[OF assms, of p q] by (rule divide_right_mono) simp
  finally show ?thesis .
qed

lemma det_rec_mean:
  assumes "spd n A" "spd n B"
  shows "sqrt (det_rec n A * det_rec n B) \<le> det_rec n (mat_div (mat_add A B) 2)"
  using assms
proof (induction n arbitrary: A B)
  case 0
  then show ?case by simp
next
  case (Suc n)
  from Suc.prems(1) have "is_square (Suc n) A" by (simp add: spd_def)
  then obtain a r c A' where A: "A = bordered a r c A'" "length r = n" "length c = n" "is_square n A'"
    by (rule is_square_SucE)
  from Suc.prems(2) have "is_square (Suc n) B" by (simp add: spd_def)
  then obtain b s d B' where B: "B = bordered b s d B'" "length s = n" "length d = n" "is_square n B'"
    by (rule is_square_SucE)
  from spd_borderedD[OF Suc.prems(1)[unfolded A(1)] A(2,3,4)]
  have a: "0 < a" and cr: "c = r" and SA: "spd n (schur a r c A')" by simp_all
  from spd_borderedD[OF Suc.prems(2)[unfolded B(1)] B(2,3,4)]
  have b: "0 < b" and ds: "d = s" and SB: "spd n (schur b s d B')" by simp_all
  have lA: "length A' = n" and lB: "length B' = n" using A B by (simp_all add: is_square_def)
  let ?m = "(a + b) / 2"
  let ?q = "map (\<lambda>x. x / 2) (vadd r s)"
  let ?M' = "mat_div (mat_add A' B') 2"
  let ?M = "bordered ?m ?q ?q ?M'"
  let ?SA = "schur a r r A'"
  let ?SB = "schur b s s B'"
  let ?SM = "schur ?m ?q ?q ?M'"
  let ?T = "mat_div (mat_add ?SA ?SB) 2"
  have M: "mat_div (mat_add A B) 2 = ?M"
    using mean_bordered[of c A' d B' a r b s] A B lA lB cr ds by simp
  have spdM: "spd (Suc n) ?M" using spd_mean[OF Suc.prems] M by simp
  have lq: "length ?q = n" using A(2) B(2) by simp
  have sqM': "is_square n ?M'" using A(4) B(4) by (rule is_square_mean)
  from spd_borderedD[OF spdM lq lq sqM']
  have m: "0 < ?m" and SM: "spd n ?SM" by simp_all
  have SA': "spd n ?SA" and SB': "spd n ?SB" using SA SB cr ds by simp_all
  have T: "spd n ?T" using SA' SB' by (rule spd_mean)
  have "quad_le n ?T ?SM"
    unfolding quad_le_def
  proof (intro allI impI)
    fix z :: vec assume z: "length z = n"
    let ?p = "dot r z" and ?s = "dot s z"
    have qz: "dot ?q z = (?p + ?s) / 2"
      using A(2) B(2) by (simp add: dot_half dot_vadd)
    have 1: "quad ?SM z = (quad A' z + quad B' z) / 2 - ((?p + ?s) / 2) * ((?p + ?s) / 2) / ?m"
      using quad_schur[OF z lq sqM' lq, of ?m] quad_mean[OF A(4) B(4) z] qz
      by (simp add: dot_commute[of z ?q])
    have 2: "quad ?T z = ((quad A' z - ?p * ?p / a) + (quad B' z - ?s * ?s / b)) / 2"
      using quad_mean[of n ?SA ?SB z] SA' SB' z
        quad_schur[OF z A(2) A(4) A(2), of a] quad_schur[OF z B(2) B(4) B(2), of b]
      by (simp add: spd_def dot_commute[of z])
    have 3: "((?p + ?s) / 2) * ((?p + ?s) / 2) / ?m \<le> (?p * ?p / a + ?s * ?s / b) / 2"
      using a b by (rule titu_half)
    have "quad ?T z = (quad A' z + quad B' z) / 2 - (?p * ?p / a + ?s * ?s / b) / 2"
      unfolding 2 by (simp add: field_simps)
    with 1 3 show "quad ?T z \<le> quad ?SM z" by linarith
  qed
  from det_rec_mono[OF SM T this] have "det_rec n ?T \<le> det_rec n ?SM" .
  moreover have "sqrt (det_rec n ?SA * det_rec n ?SB) \<le> det_rec n ?T"
    using SA' SB' by (rule Suc.IH)
  ultimately have S: "sqrt (det_rec n ?SA * det_rec n ?SB) \<le> det_rec n ?SM" by simp
  have "sqrt (a * b) \<le> ?m" using a b by (intro arith_geo_mean_sqrt) simp_all
  then have "sqrt (a * b) * sqrt (det_rec n ?SA * det_rec n ?SB) \<le> ?m * det_rec n ?SM"
    using S m det_rec_pos[OF SA'] det_rec_pos[OF SB'] by (intro mult_mono) simp_all
  moreover have "sqrt (a * b) * sqrt (det_rec n ?SA * det_rec n ?SB)
      = sqrt ((a * det_rec n ?SA) * (b * det_rec n ?SB))"
    by (simp add: real_sqrt_mult[symmetric] ac_simps)
  moreover have "det_rec (Suc n) A = a * det_rec n ?SA" "det_rec (Suc n) B = b * det_rec n ?SB"
    using det_rec_bordered[of a c A' n r] det_rec_bordered[of b d B' n s] a b A B lA lB cr ds
    by simp_all
  moreover have "det_rec (Suc n) ?M = ?m * det_rec n ?SM"
    using det_rec_bordered[of ?m ?q ?M' n ?q] m lq sqM' by (simp add: is_square_def)
  ultimately show ?case by (simp add: M)
qed

lemma linalg_det_mean:
  assumes "spd n A" "spd n B"
  shows "sqrt (linalg_det A * linalg_det B) \<le> linalg_det (mat_div (mat_add A B) 2)"
proof -
  have "length A = n" "length B = n" "length (mat_div (mat_add A B) 2) = n"
    using assms is_square_mean[of n A B] by (simp_all add: spd_def is_square_def)
  then show ?thesis using det_rec_mean[OF assms] by (simp add: linalg_det_def)
qed

section \<open>The Hellinger distance of valid components\<close>

lemma powr_quarter: "0 \<le> x \<Longrightarrow> x powr (1 / 4) = sqrt (sqrt x)"
proof -
  assume x: "0 \<le> x"
  have "x powr (1 / 4) = (x powr (1 / 2)) powr (1 / 2)" by (simp add: powr_powr)
  then show ?thesis using x by (simp add: powr_half_sqrt)
qed

lemma linalg_inv_spd:
  assumes "spd n M"
  shows "\<exists>Mi. linalg_inv M = Inr Mi \<and> (\<forall>x. length x = n \<longrightarrow> 0 \<le> dot (vm n x Mi) x)"
proof -
  from inv_rec_spd[OF assms] obtain Mi where Mi: "inv_rec n M = Some Mi" "is_square n Mi"
    and psd: "\<And>x. length x = n \<Longrightarrow> 0 \<le> quad Mi x" by blast
  have "length M = n" using assms by (simp add: spd_def is_square_def)
  then have "linalg_inv M = Inr Mi" using Mi(1) by (simp add: linalg_inv_def)
  moreover have "dot (vm n x Mi) x = quad Mi x" for x
    using Mi(2) by (simp add: dot_vm is_square_def list_all_iff quad_def)
  ultimately show ?thesis using psd by simp
qed

lemma hellinger_value:
  assumes "spd n cov1" "spd n cov2" "length mean1 = n" "length mean2 = n"
  shows "\<exists>q Mi. linalg_inv (mat_div (mat_add cov1 cov2) 2) = Inr Mi
    \<and> q = dot (vm n (vsub mean1 mean2) Mi) (vsub mean1 mean2) \<and> 0 \<le> q
    \<and> get_hellinger_distance cov1 mean1 cov2 mean2
        = Inr (Some (sqrt \<bar>1 - exp (- q / 8)
            * (sqrt (sqrt (linalg_det cov1)) * sqrt (sqrt (linalg_det cov2))
               / sqrt (linalg_det (mat_div (mat_add cov1 cov2) 2)))\<bar>))"
proof -
  let ?M = "mat_div (mat_add cov1 cov2) 2"
  have M: "spd n ?M" using assms(1,2) by (rule spd_mean)
  from linalg_inv_spd[OF M] obtain Mi where Mi: "linalg_inv ?M = Inr Mi"
    and psd: "\<And>x. length x = n \<Longrightarrow> 0 \<le> dot (vm n x Mi) x" by blast
  have d: "0 < linalg_det cov1" "0 < linalg_det cov2" "0 < linalg_det ?M"
    using assms(1,2) M by (simp_all add: linalg_det_pos)
  have sq: "is_square n cov1" "is_square n cov2" using assms by (simp_all add: spd_def)
  have "0 \<le> dot (vm n (vsub mean1 mean2) Mi) (vsub mean1 mean2)"
    using assms(3,4) by (intro psd) simp
  moreover have "get_hellinger_distance cov1 mean1 cov2 mean2
        = Inr (Some (sqrt \<bar>1 - exp (- dot (vm n (vsub mean1 mean2) Mi) (vsub mean1 mean2) / 8)
            * (sqrt (sqrt (linalg_det cov1)) * sqrt (sqrt (linalg_det cov2))
               / sqrt (linalg_det ?M))\<bar>))"
    using assms(3,4) sq Mi d
    by (simp add: get_hellinger_distance_def Let_def bind_res_def np_power_def np_sqrt_def
        fmul_def fdiv_def powr_quarter)
  ultimately show ?thesis using Mi by blast
qed

lemma hellinger_bounds:
  assumes "spd n cov1" "spd n cov2" "length mean1 = n" "length mean2 = n"
  shows "\<exists>h. get_hellinger_distance cov1 mean1 cov2 mean2 = Inr (Some h) \<and> 0 \<le> h \<and> h \<le> 1"
proof -
  let ?M = "mat_div (mat_add cov1 cov2) 2"
  let ?d1 = "linalg_det cov1" and ?d2 = "linalg_det cov2" and ?dM = "linalg_det ?M"
  from hellinger_value[OF assms] obtain q where q: "0 \<le> q"
    and h: "get_hellinger_distance cov1 mean1 cov2 mean2
        = Inr (Some (sqrt \<bar>1 - exp (- q / 8) * (sqrt (sqrt ?d1) * sqrt (sqrt ?d2) / sqrt ?dM)\<bar>))"
    by blast
  have d: "0 < ?d1" "0 < ?d2" "0 < ?dM"
    using assms(1,2) spd_mean[OF assms(1,2)] by (simp_all add: linalg_det_pos)
  let ?t1 = "exp (- q / 8)"
  let ?t2 = "sqrt (sqrt ?d1) * sqrt (sqrt ?d2) / sqrt ?dM"
  have t1: "0 < ?t1" "?t1 \<le> 1" using q by simp_all
  have "sqrt (sqrt ?d1) * sqrt (sqrt ?d2) = sqrt (sqrt (?d1 * ?d2))"
    by (simp add: real_sqrt_mult)
  also have "\<dots> \<le> sqrt ?dM"
    using linalg_det_mean[OF assms(1,2)] by simp
  finally have t2: "?t2 \<le> 1" using d by simp
  have t2': "0 < ?t2" using d by simp
  have "0 < ?t1 * ?t2" using t1(1) t2' by (rule mult_pos_pos)
  moreover have "?t1 * ?t2 \<le> 1 * 1"
    using t1 t2 t2' by (intro mult_mono) simp_all
  ultimately have "0 \<le> sqrt \<bar>1 - ?t1 * ?t2\<bar>" "sqrt \<bar>1 - ?t1 * ?t2\<bar> \<le> 1"
    by simp_all
  with h show ?thesis by blast
qed

text \<open>
  Claim C3.  For two components of dimension \<open>n\<close> with symmetric positive definite
  covariance matrices, the function returns a number (no exception, no \<^verbatim>\<open>nan\<close>), and the
  number lies between 0 and 1.
\<close>

theorem get_hellinger_distance_bounded:
  assumes "spd n cov1" "spd n cov2" "length mean1 = n" "length mean2 = n"
  shows "\<exists>h. get_hellinger_distance cov1 mean1 cov2 mean2 = Inr (Some h) \<and> 0 \<le> h \<and> h \<le> 1"
  using assms by (rule hellinger_bounds)

lemma spd_example_1: "spd 2 [[2, 1], [1, 2]]"
proof -
  have "0 < quad [[2, 1], [1, 2]] x" if "length x = 2" "x \<noteq> replicate 2 0" for x
  proof -
    from that(1) obtain a b where x: "x = [a, b]"
      by (cases x; cases "tl x") auto
    with that(2) have "a \<noteq> 0 \<or> b \<noteq> 0" by (auto simp: numeral_2_eq_2)
    then have "0 < a * a + b * b" by (simp add: sum_squares_gt_zero_iff)
    moreover have "0 \<le> (a + b) * (a + b)" by simp
    moreover have "quad [[2, 1], [1, 2]] x = a * a + b * b + (a + b) * (a + b)"
      by (simp add: x quad_def algebra_simps)
    ultimately show ?thesis by linarith
  qed
  moreover have "[[2, 1], [1, 2]] ! i ! j = [[2, 1], [1, 2 :: real]] ! j ! i" if "i < 2" "j < 2" for i j
    using that by (auto simp: less_2_cases_iff)
  ultimately show ?thesis by (simp add: spd_def is_square_def)
qed

lemma spd_example_2: "spd 2 [[1, 0], [0, 1]]"
proof -
  have "0 < quad [[1, 0], [0, 1]] x" if "length x = 2" "x \<noteq> replicate 2 0" for x
  proof -
    from that(1) obtain a b where x: "x = [a, b]"
      by (cases x; cases "tl x") auto
    with that(2) have "a \<noteq> 0 \<or> b \<noteq> 0" by (auto simp: numeral_2_eq_2)
    then have "0 < a * a + b * b" by (simp add: sum_squares_gt_zero_iff)
    then show ?thesis by (simp add: x quad_def)
  qed
  moreover have "[[1, 0], [0, 1]] ! i ! j = [[1, 0], [0, 1 :: real]] ! j ! i" if "i < 2" "j < 2" for i j
    using that by (auto simp: less_2_cases_iff)
  ultimately show ?thesis by (simp add: spd_def is_square_def)
qed

theorem get_hellinger_distance_bounded_witness:
  "\<exists>h. get_hellinger_distance [[2, 1], [1, 2]] [0, 0] [[1, 0], [0, 1]] [1, 3] = Inr (Some h)
      \<and> 0 \<le> h \<and> h \<le> 1"
  using get_hellinger_distance_bounded[OF spd_example_1 spd_example_2, of "[0, 0]" "[1, 3]"]
  by simp

end
